theory Spec2Isabelle
  imports Complex_Main "HOL-Library.Sublist"
begin

section \<open>Values\<close>

text \<open>
  The values the pipeline handles are what \<^verbatim>\<open>JSON.parse\<close> produces, plus the native
  \<^verbatim>\<open>Date\<close> objects the normalizer writes into them. A number is an IEEE double:
  \<^verbatim>\<open>JSON.parse("1e400")\<close> is \<^verbatim>\<open>Infinity\<close>, so the non-finite values are kept
  apart from the finite ones. An object is its list of own properties in enumeration
  order; a \<^verbatim>\<open>Date\<close> carries its time value in milliseconds since the epoch, or
  nothing when it is an Invalid Date. Strings are lists of 8-bit characters.
\<close>

datatype number = Finite real | PlusInfinity | MinusInfinity | NaN

datatype jsval =
    JNull
  | JBool bool
  | JNum number
  | JStr string
  | JArr "jsval list"
  | JObj "(string \<times> jsval) list"
  | JDate "int option"

text \<open>Every \<^verbatim>\<open>throw\<close> of the sources is a value; \<^verbatim>\<open>error.message\<close> reads its text.\<close>

datatype js_error = Error string | TypeError string | SyntaxError string

fun message :: "js_error \<Rightarrow> string" where
  "message (Error m) = m"
| "message (TypeError m) = m"
| "message (SyntaxError m) = m"

section \<open>The host's Date\<close>

text \<open>
  \<^verbatim>\<open>new Date(string)\<close> follows ECMAScript: a string in the Date Time String Format
  with every field in range denotes the instant computed by MakeDay, MakeTime and
  MakeDate; for any other string the engine falls back to heuristics of its own, which
  are a parameter here (\<open>legacy\<close>: the time value, or nothing for an Invalid Date).
  Only the shape \<^verbatim>\<open>YYYY-MM-DDTHH:mm:ss[.sss]Z\<close> of the format is spelled out.
\<close>

definition msPerDay :: int where
  "msPerDay = 86400000"

definition DayFromYear :: "int \<Rightarrow> int" where
  "DayFromYear y = 365 * (y - 1970) + (y - 1969) div 4 - (y - 1901) div 100 + (y - 1601) div 400"

definition InLeapYear :: "int \<Rightarrow> bool" where
  "InLeapYear y = (y mod 4 = 0 \<and> (y mod 100 \<noteq> 0 \<or> y mod 400 = 0))"

definition DaysInMonth :: "int \<Rightarrow> int \<Rightarrow> int" where
  "DaysInMonth y m =
     (if m = 2 then (if InLeapYear y then 29 else 28)
      else if m = 4 \<or> m = 6 \<or> m = 9 \<or> m = 11 then 30 else 31)"

fun DaysBeforeMonth :: "int \<Rightarrow> nat \<Rightarrow> int" where
  "DaysBeforeMonth y 0 = 0"
| "DaysBeforeMonth y (Suc k) = DaysBeforeMonth y k + DaysInMonth y (int (Suc k))"

definition MakeDay :: "int \<Rightarrow> int \<Rightarrow> int \<Rightarrow> int" where
  "MakeDay y m d = DayFromYear y + DaysBeforeMonth y (nat (m - 1)) + d - 1"

definition MakeTime :: "int \<Rightarrow> int \<Rightarrow> int \<Rightarrow> int \<Rightarrow> int" where
  "MakeTime h mi s ms = h * 3600000 + mi * 60000 + s * 1000 + ms"

definition MakeDate :: "int \<Rightarrow> int \<Rightarrow> int" where
  "MakeDate day time = day * msPerDay + time"

definition is_digit :: "char \<Rightarrow> bool" where
  "is_digit c = (48 \<le> (of_char c :: nat) \<and> (of_char c :: nat) \<le> 57)"

definition decimal :: "string \<Rightarrow> int" where
  "decimal s = foldl (\<lambda>n c. 10 * n + (int (of_char c) - 48)) 0 s"

text \<open>A pattern of digits and literal characters; the match returns what is left.\<close>

datatype atom = Digit | Lit char

fun match_atoms :: "atom list \<Rightarrow> string \<Rightarrow> string option" where
  "match_atoms [] s = Some s"
| "match_atoms (a # as) [] = None"
| "match_atoms (Digit # as) (c # s) = (if is_digit c then match_atoms as s else None)"
| "match_atoms (Lit l # as) (c # s) = (if c = l then match_atoms as s else None)"

definition seconds_atoms :: "atom list" where
  "seconds_atoms =
     [Digit, Digit, Digit, Digit, Lit CHR ''-'', Digit, Digit, Lit CHR ''-'', Digit, Digit,
      Lit CHR ''T'', Digit, Digit, Lit CHR '':'', Digit, Digit, Lit CHR '':'', Digit, Digit]"

definition millis_atoms :: "atom list" where
  "millis_atoms = [Lit CHR ''.'', Digit, Digit, Digit]"

definition parse_utc_timestamp :: "string \<Rightarrow> int option" where
  "parse_utc_timestamp s =
     (case match_atoms seconds_atoms s of
        None \<Rightarrow> None
      | Some r \<Rightarrow>
         (let frac = (if r = ''Z'' then Some 0
                      else (case match_atoms millis_atoms r of
                              Some ''Z'' \<Rightarrow> Some (decimal (take 3 (drop 1 r)))
                            | _ \<Rightarrow> None));
              y = decimal (take 4 s); m = decimal (take 2 (drop 5 s));
              d = decimal (take 2 (drop 8 s)); h = decimal (take 2 (drop 11 s));
              mi = decimal (take 2 (drop 14 s)); sec = decimal (take 2 (drop 17 s))
          in case frac of
               None \<Rightarrow> None
             | Some ms \<Rightarrow>
                if 1 \<le> m \<and> m \<le> 12 \<and> 1 \<le> d \<and> d \<le> DaysInMonth y m
                   \<and> h \<le> 23 \<and> mi \<le> 59 \<and> sec \<le> 59
                then Some (MakeDate (MakeDay y m d) (MakeTime h mi sec ms))
                else None))"

definition time_value :: "(string \<Rightarrow> int option) \<Rightarrow> string \<Rightarrow> int option" where
  "time_value legacy s = (case parse_utc_timestamp s of Some t \<Rightarrow> Some t | None \<Rightarrow> legacy s)"

definition new_Date :: "(string \<Rightarrow> int option) \<Rightarrow> string \<Rightarrow> jsval" where
  "new_Date legacy s = JDate (time_value legacy s)"

text \<open>
  \<^verbatim>\<open>Date.prototype.toISOString\<close>: the civil date of a day number, then the fields
  zero-padded; a year outside 0..9999 is written with a sign and six digits.
\<close>

definition civil_from_days :: "int \<Rightarrow> int \<times> int \<times> int" where
  "civil_from_days z0 =
     (let z = z0 + 719468;
          era = z div 146097;
          doe = z - era * 146097;
          yoe = (doe - doe div 1460 + doe div 36524 - doe div 146096) div 365;
          doy = doe - (365 * yoe + yoe div 4 - yoe div 100);
          mp = (5 * doy + 2) div 153;
          d = doy - (153 * mp + 2) div 5 + 1;
          m = (if mp < 10 then mp + 3 else mp - 9);
          y = yoe + era * 400 + (if m \<le> 2 then 1 else 0)
      in (y, m, d))"

fun show_nat :: "nat \<Rightarrow> string" where
  "show_nat n =
     (if n < 10 then [char_of (48 + n)]
      else show_nat (n div 10) @ [char_of (48 + n mod 10)])"

definition show_int :: "int \<Rightarrow> string" where
  "show_int i = (if i < 0 then CHR ''-'' # show_nat (nat (- i)) else show_nat (nat i))"

definition pad :: "nat \<Rightarrow> int \<Rightarrow> string" where
  "pad w i = (let s = show_nat (nat i) in replicate (w - length s) CHR ''0'' @ s)"

definition toISOString :: "int \<Rightarrow> string" where
  "toISOString t =
     (let day = t div msPerDay; tod = t mod msPerDay;
          (y, m, d) = civil_from_days day;
          year = (if 0 \<le> y \<and> y \<le> 9999 then pad 4 y
                  else (if y < 0 then CHR ''-'' else CHR ''+'') # pad 6 (abs y))
      in year @ ''-'' @ pad 2 m @ ''-'' @ pad 2 d @ ''T'' @ pad 2 (tod div 3600000) @ '':''
         @ pad 2 (tod mod 3600000 div 60000) @ '':'' @ pad 2 (tod mod 60000 div 1000) @ ''.''
         @ pad 3 (tod mod 1000) @ ''Z'')"

section \<open>The Temporal Normalizer\<close>

text \<open>
  \<^verbatim>\<open>/^\d{4}-\d{2}-\d{2}T\d{2}:\d{2}:\d{2}(\.\d{3})?Z$/.test(value)\<close>
\<close>

definition isoDateRegex_test :: "string \<Rightarrow> bool" where
  "isoDateRegex_test s =
     (case match_atoms seconds_atoms s of
        None \<Rightarrow> False
      | Some r \<Rightarrow> (case match_atoms millis_atoms r of
                     Some r' \<Rightarrow> r' = ''Z''
                   | None \<Rightarrow> r = ''Z''))"

text \<open>
  \<^verbatim>\<open>convertDateStrings\<close> exists twice, in mongoService.js and in queryGenerator.js. The
  two bodies differ in one place, the own-property guard of the loop:
  \<^verbatim>\<open>obj.hasOwnProperty(key)\<close> in mongoService.js looks the method up on the object
  itself, so an own property named hasOwnProperty (never a function in parsed JSON)
  shadows the inherited method and the call raises a TypeError, while
  \<^verbatim>\<open>Object.prototype.hasOwnProperty.call(obj, key)\<close> in queryGenerator.js cannot be
  shadowed.
\<close>

datatype module = MongoService | QueryGenerator

definition own_property_guard ::
  "module \<Rightarrow> (string \<times> jsval) list \<Rightarrow> string \<Rightarrow> js_error + bool" where
  "own_property_guard md obj key =
     (case md of
        QueryGenerator \<Rightarrow> Inr (key \<in> fst ` set obj)
      | MongoService \<Rightarrow>
         (case map_of obj ''hasOwnProperty'' of
            Some f \<Rightarrow> Inl (TypeError ''obj.hasOwnProperty is not a function'')
          | None \<Rightarrow> Inr (key \<in> fst ` set obj)))"

text \<open>\<^verbatim>\<open>value.$date && typeof value.$date === "string"\<close>: a non-empty string.\<close>

definition date_wrapper :: "jsval \<Rightarrow> string option" where
  "date_wrapper v =
     (case v of
        JObj ps \<Rightarrow> (case map_of ps ''$date'' of
                      Some (JStr s) \<Rightarrow> (if s \<noteq> [] then Some s else None)
                    | _ \<Rightarrow> None)
      | _ \<Rightarrow> None)"

text \<open>
  The traversal mutates a freshly parsed tree in place and returns it, so on a tree it
  is the function from the tree to the rewritten tree. \<open>convert_props\<close> is the
  \<^verbatim>\<open>for (const key in obj)\<close> loop over an object (whose first argument stays the
  object, for the guard), \<open>convert_elems\<close> the same loop over an array (whose
  \<^verbatim>\<open>hasOwnProperty\<close> is always the inherited one), and \<open>convert_value\<close> the loop body
  at one key. A string, a number, a boolean, null and a Date have no enumerable
  property that the body changes.
\<close>

fun convertDateStrings_in :: "module \<Rightarrow> (string \<Rightarrow> int option) \<Rightarrow> jsval \<Rightarrow> js_error + jsval"
and convert_props ::
  "module \<Rightarrow> (string \<Rightarrow> int option) \<Rightarrow> (string \<times> jsval) list \<Rightarrow> (string \<times> jsval) list
     \<Rightarrow> js_error + (string \<times> jsval) list"
and convert_elems :: "module \<Rightarrow> (string \<Rightarrow> int option) \<Rightarrow> jsval list \<Rightarrow> js_error + jsval list"
and convert_value :: "module \<Rightarrow> (string \<Rightarrow> int option) \<Rightarrow> jsval \<Rightarrow> js_error + jsval"
where
  "convertDateStrings_in md legacy (JObj ps) =
     (case convert_props md legacy ps ps of Inl e \<Rightarrow> Inl e | Inr ps' \<Rightarrow> Inr (JObj ps'))"
| "convertDateStrings_in md legacy (JArr xs) =
     (case convert_elems md legacy xs of Inl e \<Rightarrow> Inl e | Inr xs' \<Rightarrow> Inr (JArr xs'))"
| "convertDateStrings_in md legacy JNull = Inr JNull"
| "convertDateStrings_in md legacy (JBool b) = Inr (JBool b)"
| "convertDateStrings_in md legacy (JNum n) = Inr (JNum n)"
| "convertDateStrings_in md legacy (JStr s) = Inr (JStr s)"
| "convertDateStrings_in md legacy (JDate t) = Inr (JDate t)"
| "convert_props md legacy obj [] = Inr []"
| "convert_props md legacy obj ((key, v) # rest) =
     (case own_property_guard md obj key of
        Inl e \<Rightarrow> Inl e
      | Inr own \<Rightarrow>
         (case (if own then convert_value md legacy v else Inr v) of
            Inl e \<Rightarrow> Inl e
          | Inr v' \<Rightarrow>
             (case convert_props md legacy obj rest of
                Inl e \<Rightarrow> Inl e
              | Inr rest' \<Rightarrow> Inr ((key, v') # rest'))))"
| "convert_elems md legacy [] = Inr []"
| "convert_elems md legacy (v # rest) =
     (case convert_value md legacy v of
        Inl e \<Rightarrow> Inl e
      | Inr v' \<Rightarrow>
         (case convert_elems md legacy rest of
            Inl e \<Rightarrow> Inl e
          | Inr rest' \<Rightarrow> Inr (v' # rest')))"
| "convert_value md legacy v =
     (case v of
        JStr s \<Rightarrow> (if isoDateRegex_test s then Inr (new_Date legacy s) else Inr v)
      | JObj ps \<Rightarrow> (case date_wrapper v of
                      Some s \<Rightarrow> Inr (new_Date legacy s)
                    | None \<Rightarrow> convertDateStrings_in md legacy v)
      | JArr xs \<Rightarrow> convertDateStrings_in md legacy v
      | JDate t \<Rightarrow> convertDateStrings_in md legacy v
      | _ \<Rightarrow> Inr v)"

definition convertDateStrings :: "(string \<Rightarrow> int option) \<Rightarrow> jsval \<Rightarrow> js_error + jsval" where
  "convertDateStrings = convertDateStrings_in MongoService"

definition convertDateStrings_qg :: "(string \<Rightarrow> int option) \<Rightarrow> jsval \<Rightarrow> js_error + jsval" where
  "convertDateStrings_qg = convertDateStrings_in QueryGenerator"

text \<open>
  What the traversal computes, written without the guard: \<open>rewrite_value\<close> is the
  loop body as a function, \<open>rewrite\<close> the traversal, and \<open>trips\<close> says that the
  traversal meets an object with an own property named hasOwnProperty (below a
  \<^verbatim>\<open>$date\<close> wrapper nothing is visited). They are used to reason about the
  traversal, which is proved equal to them below.
\<close>

fun rewrite_value :: "(string \<Rightarrow> int option) \<Rightarrow> jsval \<Rightarrow> jsval" where
  "rewrite_value legacy (JStr s) = (if isoDateRegex_test s then new_Date legacy s else JStr s)"
| "rewrite_value legacy (JObj ps) =
     (case date_wrapper (JObj ps) of
        Some s \<Rightarrow> new_Date legacy s
      | None \<Rightarrow> JObj (map (\<lambda>(k, v). (k, rewrite_value legacy v)) ps))"
| "rewrite_value legacy (JArr xs) = JArr (map (rewrite_value legacy) xs)"
| "rewrite_value legacy v = v"

definition rewrite :: "(string \<Rightarrow> int option) \<Rightarrow> jsval \<Rightarrow> jsval" where
  "rewrite legacy v =
     (case v of
        JObj ps \<Rightarrow> JObj (map (\<lambda>(k, v). (k, rewrite_value legacy v)) ps)
      | JArr xs \<Rightarrow> JArr (map (rewrite_value legacy) xs)
      | _ \<Rightarrow> v)"

fun trips_value :: "jsval \<Rightarrow> bool" where
  "trips_value (JObj ps) =
     (date_wrapper (JObj ps) = None \<and>
      (map_of ps ''hasOwnProperty'' \<noteq> None \<or> (\<exists>(k, v) \<in> set ps. trips_value v)))"
| "trips_value (JArr xs) = (\<exists>v \<in> set xs. trips_value v)"
| "trips_value v = False"

definition trips :: "jsval \<Rightarrow> bool" where
  "trips v =
     (case v of
        JObj ps \<Rightarrow> map_of ps ''hasOwnProperty'' \<noteq> None \<or> (\<exists>(k, v) \<in> set ps. trips_value v)
      | JArr xs \<Rightarrow> (\<exists>v \<in> set xs. trips_value v)
      | _ \<Rightarrow> False)"

definition shadow_error :: js_error where
  "shadow_error = TypeError ''obj.hasOwnProperty is not a function''"

text \<open>Paths into a value: a property name at an object, an index at an array.\<close>

datatype step = Key string | Index nat

fun child :: "jsval \<Rightarrow> step \<Rightarrow> jsval option" where
  "child (JObj ps) (Key k) = map_of ps k"
| "child (JArr xs) (Index i) = (if i < length xs then Some (xs ! i) else None)"
| "child v s = None"

fun at_path :: "jsval \<Rightarrow> step list \<Rightarrow> jsval option" where
  "at_path v [] = Some v"
| "at_path v (s # p) = (case child v s of None \<Rightarrow> None | Some c \<Rightarrow> at_path c p)"

text \<open>
  \<open>passes_wrapper v p\<close>: walking the path \<open>p\<close> down from \<open>v\<close>, some value met
  before the end of the path (\<open>v\<close> included, the end excluded) is a \<^verbatim>\<open>$date\<close>
  wrapper.
\<close>

fun passes_wrapper :: "jsval \<Rightarrow> step list \<Rightarrow> bool" where
  "passes_wrapper v [] = False"
| "passes_wrapper v (s # p) =
     (date_wrapper v \<noteq> None \<or> (case child v s of None \<Rightarrow> False | Some c \<Rightarrow> passes_wrapper c p))"

definition no_fallback :: "string \<Rightarrow> int option" where
  "no_fallback s = None"

definition is_array :: "jsval \<Rightarrow> bool" where
  "is_array v = (case v of JArr xs \<Rightarrow> True | _ \<Rightarrow> False)"

section \<open>The Translator\<close>

text \<open>
  The host and the collaborators, which are not code of this repository:
  the engine's fallback of \<^verbatim>\<open>Date\<close>, \<^verbatim>\<open>JSON.parse\<close> on a text (a SyntaxError or the
  value), \<^verbatim>\<open>JSON.stringify\<close> as the text written into a prompt, the reasoning service
  (\<^verbatim>\<open>groq.chat.completions.create\<close> and the read of
  \<^verbatim>\<open>completion.choices[0]?.message?.content\<close>: it raises, or yields no content, or a
  text) and the data store (\<^verbatim>\<open>collection.aggregate(q).toArray()\<close>: it raises, or
  yields the records). The two collaborators act on a world \<open>'w\<close> that they read and
  change, so that their answers may depend on everything that happened before.
\<close>

record 'w host =
  legacy_date :: "string \<Rightarrow> int option"
  json_parse :: "string \<Rightarrow> js_error + jsval"
  json_text :: "jsval \<Rightarrow> string"
  completions_create :: "'w \<Rightarrow> (string \<times> string option) list \<Rightarrow> (js_error + string option) \<times> 'w"
  aggregate :: "'w \<Rightarrow> jsval \<Rightarrow> (js_error + jsval list) \<times> 'w"

record query_generator =
  isInitialized :: bool
  system_context :: "string option"

definition newline :: string where
  "newline = [CHR 0x0A]"

definition dquote :: string where
  "dquote = [CHR 0x22]"

definition fence :: string where
  "fence = ''```''"

definition is_space :: "char \<Rightarrow> bool" where
  "is_space c = ((of_char c :: nat) \<in> {9, 10, 11, 12, 13, 32, 160})"

definition trim :: "string \<Rightarrow> string" where
  "trim s = rev (dropWhile is_space (rev (dropWhile is_space s)))"

fun str_includes :: "string \<Rightarrow> string \<Rightarrow> bool" where
  "str_includes [] pat = (pat = [])"
| "str_includes (c # s) pat = (prefix pat (c # s) \<or> str_includes s pat)"

text \<open>
  \<^verbatim>\<open>s.replace(/```json\n?/, "")\<close> and \<^verbatim>\<open>s.replace(/```\n?/, "")\<close>: the leftmost
  occurrence of the opening marker goes, with the newline after it when there is one.
\<close>

fun replace_open :: "string \<Rightarrow> string \<Rightarrow> string" where
  "replace_open pat [] = []"
| "replace_open pat (c # s) =
     (if prefix pat (c # s)
      then (let r = drop (length pat) (c # s) in if prefix newline r then drop 1 r else r)
      else c # replace_open pat s)"

text \<open>
  \<^verbatim>\<open>s.replace(/\n?```/, "")\<close>: the leftmost position where a fence, or a newline and
  a fence, starts.
\<close>

fun replace_close :: "string \<Rightarrow> string" where
  "replace_close [] = []"
| "replace_close (c # s) =
     (if prefix (newline @ fence) (c # s) then drop 4 (c # s)
      else if prefix fence (c # s) then drop 3 (c # s)
      else c # replace_close s)"

definition strip_fences :: "string \<Rightarrow> string" where
  "strip_fences s =
     (if str_includes s (fence @ ''json'') then replace_close (replace_open (fence @ ''json'') s)
      else if str_includes s fence then replace_close (replace_open fence s)
      else s)"

text \<open>The body of the \<^verbatim>\<open>try\<close> of \<^verbatim>\<open>fixQuery\<close>, after the service has answered.\<close>

definition fixQuery_parse :: "'w host \<Rightarrow> string option \<Rightarrow> js_error + jsval" where
  "fixQuery_parse host content =
     (case map_option trim content of
        None \<Rightarrow> Inl (Error ''No response from Groq API'')
      | Some fixed \<Rightarrow>
         if fixed = [] then Inl (Error ''No response from Groq API'')
         else (case json_parse host (strip_fences fixed) of
                 Inl e \<Rightarrow> Inl e
               | Inr parsed \<Rightarrow> convertDateStrings_qg (legacy_date host) parsed))"

definition fix_messages ::
  "query_generator \<Rightarrow> 'w host \<Rightarrow> string \<Rightarrow> string \<Rightarrow> jsval \<Rightarrow> (string \<times> string option) list" where
  "fix_messages this host originalQuery errorMessage failedQuery =
     [(''system'', system_context this),
      (''user'', Some (''The previous MongoDB query failed with error: '' @ dquote
          @ errorMessage @ dquote @ newline @ newline @ ''User Query: '' @ dquote
          @ originalQuery @ dquote @ newline @ ''Failed Query: '' @ json_text host failedQuery
          @ newline @ newline @ ''Please return a corrected MongoDB pipeline:''))]"

definition fixQuery ::
  "query_generator \<Rightarrow> 'w host \<Rightarrow> 'w \<Rightarrow> string \<Rightarrow> string \<Rightarrow> jsval \<Rightarrow> (js_error + jsval) \<times> 'w" where
  "fixQuery this host w originalQuery errorMessage failedQuery =
     (case completions_create host w (fix_messages this host originalQuery errorMessage failedQuery) of
        (Inl e, w') \<Rightarrow> (Inl (Error (''Failed to fix query: '' @ message e)), w')
      | (Inr content, w') \<Rightarrow>
         (case fixQuery_parse host content of
            Inl e \<Rightarrow> (Inl (Error (''Failed to fix query: '' @ message e)), w')
          | Inr processed \<Rightarrow> (Inr processed, w')))"

text \<open>\<^verbatim>\<open>generateQuery\<close>: the same, with the check that \<^verbatim>\<open>fixQuery\<close> does not have.\<close>

definition generateQuery_parse :: "'w host \<Rightarrow> string option \<Rightarrow> js_error + jsval" where
  "generateQuery_parse host content =
     (case map_option trim content of
        None \<Rightarrow> Inl (Error ''No response from Groq API'')
      | Some cleaned \<Rightarrow>
         if cleaned = [] then Inl (Error ''No response from Groq API'')
         else (case json_parse host (strip_fences cleaned) of
                 Inl e \<Rightarrow> Inl e
               | Inr parsed \<Rightarrow>
                  if \<not> is_array parsed then Inl (Error ''Query must be an array'')
                  else convertDateStrings_qg (legacy_date host) parsed))"

definition generate_messages :: "query_generator \<Rightarrow> string \<Rightarrow> (string \<times> string option) list" where
  "generate_messages this userQuery =
     [(''system'', system_context this),
      (''user'', Some (''User Query: '' @ dquote @ userQuery @ dquote @ newline @ newline
          @ ''MongoDB Pipeline:''))]"

definition generateQuery ::
  "query_generator \<Rightarrow> 'w host \<Rightarrow> 'w \<Rightarrow> string \<Rightarrow> (js_error + jsval) \<times> 'w" where
  "generateQuery this host w userQuery =
     (if \<not> isInitialized this then (Inl (Error ''Query Generator not initialized''), w)
      else (case completions_create host w (generate_messages this userQuery) of
              (Inl e, w') \<Rightarrow> (Inl (Error (''Failed to generate MongoDB query: '' @ message e)), w')
            | (Inr content, w') \<Rightarrow>
               (case generateQuery_parse host content of
                  Inl e \<Rightarrow> (Inl (Error (''Failed to generate MongoDB query: '' @ message e)), w')
                | Inr processedQuery \<Rightarrow> (Inr processedQuery, w'))))"

section \<open>The Query Executor\<close>

text \<open>
  \<^verbatim>\<open>JSON.parse(JSON.stringify(currentQuery))\<close> on a tree: \<^verbatim>\<open>JSON.stringify\<close> writes a
  Date as its \<^verbatim>\<open>toISOString()\<close> text, an Invalid Date and a non-finite number as
  null, and everything else as it is; \<^verbatim>\<open>JSON.parse\<close> reads the text back.
\<close>

fun deep_copy :: "jsval \<Rightarrow> jsval" where
  "deep_copy (JDate (Some t)) = JStr (toISOString t)"
| "deep_copy (JDate None) = JNull"
| "deep_copy (JNum (Finite r)) = JNum (Finite r)"
| "deep_copy (JNum n) = JNull"
| "deep_copy (JArr xs) = JArr (map deep_copy xs)"
| "deep_copy (JObj ps) = JObj (map (\<lambda>(k, v). (k, deep_copy v)) ps)"
| "deep_copy v = v"

text \<open>
  What a run did to its collaborators, in order: the store attempts with the processed
  query they sent, and the repair calls with their three arguments.
\<close>

datatype event = StoreAttempt jsval | RepairCall string string jsval

fun is_store_attempt :: "event \<Rightarrow> bool" where
  "is_store_attempt (StoreAttempt q) = True"
| "is_store_attempt (RepairCall r m q) = False"

fun is_repair_call :: "event \<Rightarrow> bool" where
  "is_repair_call (StoreAttempt q) = False"
| "is_repair_call (RepairCall r m q) = True"

datatype outcome = Returned "jsval list" | ReturnedUndefined | Thrown js_error

text \<open>
  The \<^verbatim>\<open>try\<close> block of one iteration (lines 72 to 96): the deep copy, the
  normalizer of mongoService.js, then the store. A TypeError of the normalizer is
  raised inside the block, before the store is reached.
\<close>

definition try_attempt ::
  "'w host \<Rightarrow> jsval \<Rightarrow> 'w \<Rightarrow> (js_error + jsval list) \<times> event list \<times> 'w" where
  "try_attempt host currentQuery w =
     (case convertDateStrings (legacy_date host) (deep_copy currentQuery) of
        Inl e \<Rightarrow> (Inl e, [], w)
      | Inr processedQuery \<Rightarrow>
         (case aggregate host w processedQuery of
            (r, w') \<Rightarrow> (r, [StoreAttempt processedQuery], w')))"

datatype iteration = Done "jsval list" | Failed js_error | Retry jsval

text \<open>One iteration of the loop: the \<^verbatim>\<open>try\<close> block and its \<^verbatim>\<open>catch\<close>.\<close>

definition iterate ::
  "query_generator \<Rightarrow> 'w host \<Rightarrow> string \<Rightarrow> int \<Rightarrow> int \<Rightarrow> jsval \<Rightarrow> 'w
     \<Rightarrow> iteration \<times> event list \<times> 'w" where
  "iterate gen host originalQuery maxRetries attempt currentQuery w =
     (case try_attempt host currentQuery w of
        (Inr results, evs, w1) \<Rightarrow> (Done results, evs, w1)
      | (Inl error, evs, w1) \<Rightarrow>
         if attempt = maxRetries - 1
         then (Failed (Error (''Database query failed after '' @ show_int maxRetries
                              @ '' attempts: '' @ message error)), evs, w1)
         else (case fixQuery gen host w1 originalQuery (message error) currentQuery of
                 (Inr fixed, w2) \<Rightarrow>
                   (Retry fixed, evs @ [RepairCall originalQuery (message error) currentQuery], w2)
               | (Inl fixError, w2) \<Rightarrow>
                   (Failed (Error (''Query could not be fixed: '' @ message fixError)),
                    evs @ [RepairCall originalQuery (message error) currentQuery], w2)))"

function retry_loop ::
  "query_generator \<Rightarrow> 'w host \<Rightarrow> string \<Rightarrow> int \<Rightarrow> int \<Rightarrow> jsval \<Rightarrow> event list \<Rightarrow> 'w
     \<Rightarrow> outcome \<times> event list \<times> 'w" where
  "retry_loop gen host originalQuery maxRetries attempt currentQuery evlog w =
     (if attempt < maxRetries
      then (case iterate gen host originalQuery maxRetries attempt currentQuery w of
              (Done results, evs, w') \<Rightarrow> (Returned results, evlog @ evs, w')
            | (Failed e, evs, w') \<Rightarrow> (Thrown e, evlog @ evs, w')
            | (Retry fixed, evs, w') \<Rightarrow>
                retry_loop gen host originalQuery maxRetries (attempt + 1) fixed (evlog @ evs) w')
      else (ReturnedUndefined, evlog, w))"
  by pat_completeness auto
termination
  by (relation "measure (\<lambda>(gen, host, originalQuery, maxRetries, attempt, currentQuery, evlog, w).
        nat (maxRetries - attempt))") auto

declare retry_loop.simps [simp del]

definition executeQueryWithRetry ::
  "query_generator \<Rightarrow> 'w host \<Rightarrow> jsval \<Rightarrow> string \<Rightarrow> int \<Rightarrow> 'w \<Rightarrow> outcome \<times> event list \<times> 'w" where
  "executeQueryWithRetry gen host mongoQuery originalQuery maxRetries w =
     retry_loop gen host originalQuery maxRetries 0 mongoQuery [] w"

definition store_attempts :: "outcome \<times> event list \<times> 'w \<Rightarrow> nat" where
  "store_attempts run = length (filter is_store_attempt (fst (snd run)))"

definition repair_calls :: "outcome \<times> event list \<times> 'w \<Rightarrow> nat" where
  "repair_calls run = length (filter is_repair_call (fst (snd run)))"

section \<open>The outward boundary\<close>

text \<open>
  The fields of the response of \<^verbatim>\<open>POST /api/query\<close> that depend on the result set:
  \<^verbatim>\<open>resultCount: results.length\<close> and
  \<^verbatim>\<open>rawResults: results.length <= 200 ? results : results.slice(0, 50)\<close>.
\<close>

record query_response =
  resultCount :: nat
  rawResults :: "jsval list"

definition query_response_of :: "jsval list \<Rightarrow> query_response" where
  "query_response_of results =
     \<lparr>resultCount = length results,
      rawResults = (if length results \<le> 200 then results else take 50 results)\<rparr>"

section \<open>The attempt on a heap\<close>

text \<open>
  \<^verbatim>\<open>convertDateStrings\<close> assigns to the properties of the object it is given, so what
  it does to the caller's query depends on which objects are shared. Here objects live
  in a heap: a cell is an object with its properties, an array with its elements or a
  Date, a value is a primitive or the address of a cell, and the heap is the list of
  cells, a new cell being appended.
\<close>

type_synonym addr = nat

datatype hval = VNull | VBool bool | VNum number | VStr string | VRef addr

datatype hobj = OObject "(string \<times> hval) list" | OArray "hval list" | ODate "int option"

type_synonym heap = "hobj list"

text \<open>The values an object or array holds, in enumeration order, and the write to one of them.\<close>

fun slots :: "hobj \<Rightarrow> hval list" where
  "slots (OObject ps) = map snd ps"
| "slots (OArray xs) = xs"
| "slots (ODate t) = []"

fun set_slot :: "hobj \<Rightarrow> nat \<Rightarrow> hval \<Rightarrow> hobj" where
  "set_slot (OObject ps) i v = OObject (ps[i := (fst (ps ! i), v)])"
| "set_slot (OArray xs) i v = OArray (xs[i := v])"
| "set_slot (ODate t) i v = ODate t"

text \<open>\<^verbatim>\<open>obj.hasOwnProperty(key)\<close> and \<^verbatim>\<open>value.$date && typeof value.$date === "string"\<close> on cells.\<close>

definition guard_heap :: "module \<Rightarrow> hobj \<Rightarrow> js_error option" where
  "guard_heap md obj =
     (case md of
        QueryGenerator \<Rightarrow> None
      | MongoService \<Rightarrow>
         (case obj of
            OObject ps \<Rightarrow> (case map_of ps ''hasOwnProperty'' of
                             Some f \<Rightarrow> Some (TypeError ''obj.hasOwnProperty is not a function'')
                           | None \<Rightarrow> None)
          | _ \<Rightarrow> None))"

definition date_wrapper_heap :: "heap \<Rightarrow> addr \<Rightarrow> string option" where
  "date_wrapper_heap h b =
     (case h ! b of
        OObject qs \<Rightarrow> (case map_of qs ''$date'' of
                       Some (VStr s) \<Rightarrow> (if s \<noteq> [] then Some s else None)
                     | _ \<Rightarrow> None)
      | _ \<Rightarrow> None)"

text \<open>\<^verbatim>\<open>obj[key] = new Date(s)\<close>: a new Date cell, and its address written into the object.\<close>

definition assign_new_Date :: "(string \<Rightarrow> int option) \<Rightarrow> addr \<Rightarrow> nat \<Rightarrow> string \<Rightarrow> heap \<Rightarrow> heap" where
  "assign_new_Date legacy a i s h =
     h[a := set_slot (h ! a) i (VRef (length h))] @ [ODate (time_value legacy s)]"

text \<open>
  The traversal in place. \<open>for_in_heap\<close> is the loop over the keys of the cell at
  \<open>a\<close>, which are fixed when the loop starts; every iteration reads the value from
  the heap as it then is. The recursion follows addresses, so it carries fuel: running
  out of it is the result \<open>None\<close>. The result is the error raised, if any, and the heap.
\<close>

fun convertDateStrings_heap ::
  "nat \<Rightarrow> module \<Rightarrow> (string \<Rightarrow> int option) \<Rightarrow> hval \<Rightarrow> heap \<Rightarrow> (js_error option \<times> heap) option"
and for_in_heap ::
  "nat \<Rightarrow> module \<Rightarrow> (string \<Rightarrow> int option) \<Rightarrow> addr \<Rightarrow> nat list \<Rightarrow> heap \<Rightarrow> (js_error option \<times> heap) option"
where
  "convertDateStrings_heap 0 md legacy obj h = None"
| "convertDateStrings_heap (Suc fuel) md legacy obj h =
     (case obj of
        VRef a \<Rightarrow> (if a < length h
                   then for_in_heap fuel md legacy a [0..<length (slots (h ! a))] h
                   else None)
      | _ \<Rightarrow> Some (None, h))"
| "for_in_heap fuel md legacy a [] h = Some (None, h)"
| "for_in_heap fuel md legacy a (i # rest) h =
     (case guard_heap md (h ! a) of
        Some e \<Rightarrow> Some (Some e, h)
      | None \<Rightarrow>
         (case slots (h ! a) ! i of
            VStr s \<Rightarrow>
              if isoDateRegex_test s
              then for_in_heap fuel md legacy a rest (assign_new_Date legacy a i s h)
              else for_in_heap fuel md legacy a rest h
          | VRef b \<Rightarrow>
              if b < length h
              then (case date_wrapper_heap h b of
                      Some s \<Rightarrow> for_in_heap fuel md legacy a rest (assign_new_Date legacy a i s h)
                    | None \<Rightarrow>
                       (case convertDateStrings_heap fuel md legacy (VRef b) h of
                          None \<Rightarrow> None
                        | Some (Some e, h') \<Rightarrow> Some (Some e, h')
                        | Some (None, h') \<Rightarrow> for_in_heap fuel md legacy a rest h'))
              else None
          | _ \<Rightarrow> for_in_heap fuel md legacy a rest h))"

text \<open>
  The tree below a value, as \<^verbatim>\<open>JSON.stringify\<close> walks it; \<open>None\<close> when the fuel runs
  out, which with fuel above the number of cells means a cycle.
\<close>

fun tree_of :: "nat \<Rightarrow> heap \<Rightarrow> hval \<Rightarrow> jsval option"
and trees_of :: "nat \<Rightarrow> heap \<Rightarrow> hval list \<Rightarrow> jsval list option"
where
  "tree_of 0 h v = None"
| "tree_of (Suc fuel) h v =
     (case v of
        VNull \<Rightarrow> Some JNull
      | VBool b \<Rightarrow> Some (JBool b)
      | VNum n \<Rightarrow> Some (JNum n)
      | VStr s \<Rightarrow> Some (JStr s)
      | VRef a \<Rightarrow>
          if a < length h
          then (case h ! a of
                  OObject ps \<Rightarrow> map_option (\<lambda>ts. JObj (zip (map fst ps) ts)) (trees_of fuel h (map snd ps))
                | OArray xs \<Rightarrow> map_option JArr (trees_of fuel h xs)
                | ODate t \<Rightarrow> Some (JDate t))
          else None)"
| "trees_of fuel h [] = Some []"
| "trees_of fuel h (v # vs) =
     (case tree_of fuel h v of
        None \<Rightarrow> None
      | Some t \<Rightarrow> map_option ((#) t) (trees_of fuel h vs))"

text \<open>The objects \<^verbatim>\<open>JSON.parse\<close> builds for a tree: new cells, children before parents.\<close>

fun alloc :: "jsval \<Rightarrow> heap \<Rightarrow> hval \<times> heap"
and alloc_props :: "(string \<times> jsval) list \<Rightarrow> heap \<Rightarrow> (string \<times> hval) list \<times> heap"
and alloc_elems :: "jsval list \<Rightarrow> heap \<Rightarrow> hval list \<times> heap"
where
  "alloc JNull h = (VNull, h)"
| "alloc (JBool b) h = (VBool b, h)"
| "alloc (JNum n) h = (VNum n, h)"
| "alloc (JStr s) h = (VStr s, h)"
| "alloc (JDate t) h = (VRef (length h), h @ [ODate t])"
| "alloc (JArr ts) h = (case alloc_elems ts h of (vs, h1) \<Rightarrow> (VRef (length h1), h1 @ [OArray vs]))"
| "alloc (JObj ps) h = (case alloc_props ps h of (qs, h1) \<Rightarrow> (VRef (length h1), h1 @ [OObject qs]))"
| "alloc_props [] h = ([], h)"
| "alloc_props ((k, t) # ps) h =
     (case alloc t h of (v, h1) \<Rightarrow> (case alloc_props ps h1 of (qs, h2) \<Rightarrow> ((k, v) # qs, h2)))"
| "alloc_elems [] h = ([], h)"
| "alloc_elems (t # ts) h =
     (case alloc t h of (v, h1) \<Rightarrow> (case alloc_elems ts h1 of (vs, h2) \<Rightarrow> (v # vs, h2)))"

text \<open>
  Lines 80 to 82:
  \<^verbatim>\<open>const processedQuery = convertDateStrings(JSON.parse(JSON.stringify(currentQuery)))\<close>.
  \<^verbatim>\<open>JSON.stringify\<close> raises a TypeError on a cyclic structure.
\<close>

definition processedQuery_heap ::
  "(string \<Rightarrow> int option) \<Rightarrow> hval \<Rightarrow> heap \<Rightarrow> ((js_error + hval) \<times> heap) option" where
  "processedQuery_heap legacy currentQuery h =
     (case tree_of (Suc (length h)) h currentQuery of
        None \<Rightarrow> Some (Inl (TypeError ''Converting circular structure to JSON''), h)
      | Some t \<Rightarrow>
         (case alloc (deep_copy t) h of
            (copy, h1) \<Rightarrow>
              (case convertDateStrings_heap (Suc (length h1)) MongoService legacy copy h1 of
                 None \<Rightarrow> None
               | Some (Some e, h2) \<Rightarrow> Some (Inl e, h2)
               | Some (None, h2) \<Rightarrow> Some (Inr copy, h2))))"

text \<open>
  For the proofs: a cell with its values replaced; \<open>changes_within h h' lo hi\<close> says
  that \<open>h'\<close> extends \<open>h\<close> and differs from it at most at cells in \<open>[lo, hi)\<close> that are
  not Dates; \<open>laid h lo hi v t\<close> says that the value \<open>v\<close> represents the tree \<open>t\<close> in
  \<open>h\<close> with its objects and arrays in \<open>[lo, hi)\<close>, those of different children in
  disjoint intervals.
\<close>

fun with_slots :: "hobj \<Rightarrow> hval list \<Rightarrow> hobj" where
  "with_slots (OObject ps) vs = OObject (zip (map fst ps) vs)"
| "with_slots (OArray xs) vs = OArray vs"
| "with_slots (ODate t) vs = ODate t"

definition changes_within :: "heap \<Rightarrow> heap \<Rightarrow> nat \<Rightarrow> nat \<Rightarrow> bool" where
  "changes_within h h' lo hi =
     (length h \<le> length h' \<and>
      (\<forall>b < length h. (b < lo \<or> hi \<le> b \<or> (\<exists>d. h ! b = ODate d)) \<longrightarrow> h' ! b = h ! b))"

inductive laid :: "heap \<Rightarrow> nat \<Rightarrow> nat \<Rightarrow> hval \<Rightarrow> jsval \<Rightarrow> bool"
  and laid_list :: "heap \<Rightarrow> nat \<Rightarrow> nat \<Rightarrow> hval list \<Rightarrow> jsval list \<Rightarrow> bool"
where
  laid_null: "lo \<le> hi \<Longrightarrow> laid h lo hi VNull JNull"
| laid_bool: "lo \<le> hi \<Longrightarrow> laid h lo hi (VBool b) (JBool b)"
| laid_num: "lo \<le> hi \<Longrightarrow> laid h lo hi (VNum n) (JNum n)"
| laid_str: "lo \<le> hi \<Longrightarrow> laid h lo hi (VStr s) (JStr s)"
| laid_date: "lo \<le> hi \<Longrightarrow> b < length h \<Longrightarrow> h ! b = ODate d \<Longrightarrow> laid h lo hi (VRef b) (JDate d)"
| laid_arr: "laid_list h lo a vs ts \<Longrightarrow> a < hi \<Longrightarrow> a < length h \<Longrightarrow> h ! a = OArray vs
     \<Longrightarrow> laid h lo hi (VRef a) (JArr ts)"
| laid_obj: "laid_list h lo a (map snd qs) (map snd ps) \<Longrightarrow> map fst qs = map fst ps \<Longrightarrow> a < hi
     \<Longrightarrow> a < length h \<Longrightarrow> h ! a = OObject qs \<Longrightarrow> laid h lo hi (VRef a) (JObj ps)"
| laid_nil: "lo \<le> hi \<Longrightarrow> laid_list h lo hi [] []"
| laid_cons: "laid h lo mid v t \<Longrightarrow> laid_list h mid hi vs ts \<Longrightarrow> laid_list h lo hi (v # vs) (t # ts)"

text \<open>
  \<open>closed_above n h\<close>: the cells of \<open>h\<close> from address \<open>n\<close> on hold addresses of such
  cells only. For the proofs, \<open>grows n h h'\<close>: \<open>h'\<close> extends \<open>h\<close>, agrees with it below
  \<open>n\<close>, is closed above \<open>n\<close>, and its cells have as many values as before.
\<close>

definition closed_above :: "nat \<Rightarrow> heap \<Rightarrow> bool" where
  "closed_above n h =
     (\<forall>a. n \<le> a \<and> a < length h \<longrightarrow> (\<forall>b. VRef b \<in> set (slots (h ! a)) \<longrightarrow> n \<le> b \<and> b < length h))"

definition grows :: "nat \<Rightarrow> heap \<Rightarrow> heap \<Rightarrow> bool" where
  "grows n h h' =
     (length h \<le> length h' \<and> take n h' = take n h \<and> closed_above n h' \<and>
      (\<forall>c < length h. length (slots (h' ! c)) = length (slots (h ! c))))"

section \<open>Stubs\<close>

text \<open>
  Collaborators for concrete runs: a store that rejects every query with one message,
  a reasoning service that always answers with one text, and a parser that knows the
  two texts used below. Their world is a counter of the calls made.
\<close>

definition stub_parse :: "string \<Rightarrow> js_error + jsval" where
  "stub_parse s =
     (if s = ''[]'' then Inr (JArr [])
      else if s = ''{}'' then Inr (JObj [])
      else Inl (SyntaxError ''Unexpected token''))"

definition stub_text :: "jsval \<Rightarrow> string" where
  "stub_text v = ''[]''"

definition stub_answer :: "string \<Rightarrow> nat \<Rightarrow> (string \<times> string option) list \<Rightarrow> (js_error + string option) \<times> nat" where
  "stub_answer text w messages = (Inr (Some text), Suc w)"

definition stub_reject :: "nat \<Rightarrow> jsval \<Rightarrow> (js_error + jsval list) \<times> nat" where
  "stub_reject w q = (Inl (Error ''unknown stage''), Suc w)"

definition stub_host :: "string \<Rightarrow> nat host" where
  "stub_host text =
     \<lparr>legacy_date = no_fallback, json_parse = stub_parse, json_text = stub_text,
      completions_create = stub_answer text, aggregate = stub_reject\<rparr>"

definition stub_generator :: query_generator where
  "stub_generator = \<lparr>isInitialized = True, system_context = Some ''schema''\<rparr>"

section \<open>Example values\<close>

definition example_pipeline :: jsval where
  "example_pipeline =
     JArr [JObj [(''$match'', JObj [(''sessionDate'',
        JObj [(''$gte'', JStr ''2025-03-14T00:00:00.000Z''),
              (''$lt'', JObj [(''$date'', JStr ''2025-03-14T00:00:00.000Z'')])])])]]"

definition example_pipeline_normalized :: jsval where
  "example_pipeline_normalized =
     JArr [JObj [(''$match'', JObj [(''sessionDate'',
        JObj [(''$gte'', JDate (Some 1741910400000)),
              (''$lt'', JDate (Some 1741910400000))])])]]"

definition wrapper_example :: jsval where
  "wrapper_example =
     JObj [(''createdAt'', JObj [(''$date'', JStr ''yesterday''), (''tz'', JStr ''UTC'')])]"

definition empty_wrapper_example :: jsval where
  "empty_wrapper_example =
     JObj [(''createdAt'', JObj [(''$date'', JStr []), (''tz'', JStr ''UTC'')])]"

definition plain_query :: jsval where
  "plain_query = JArr [JObj [(''$match'', JObj [(''domain'', JStr ''Data Science'')])]]"

definition shadowed_query :: jsval where
  "shadowed_query = JArr [JObj [(''$match'', JObj [(''hasOwnProperty'', JBool True)])]]"

text \<open>A caller's query, already normalized, in a heap of its own.\<close>

definition caller_heap :: "hval \<times> heap" where
  "caller_heap = alloc example_pipeline_normalized []"

section \<open>Properties of the Temporal Normalizer\<close>

subsection \<open>The traversal as a function\<close>

lemma guard_QueryGenerator:
  "key \<in> fst ` set obj \<Longrightarrow> own_property_guard QueryGenerator obj key = Inr True"
  by (simp add: own_property_guard_def)

lemma guard_MongoService:
  "key \<in> fst ` set obj \<Longrightarrow> own_property_guard MongoService obj key =
     (if map_of obj ''hasOwnProperty'' \<noteq> None then Inl shadow_error else Inr True)"
  by (auto simp: own_property_guard_def shadow_error_def split: option.splits)

lemma unwrapped_obj:
  "date_wrapper (JObj ps) = None \<Longrightarrow> trips_value (JObj ps) = trips (JObj ps)"
  "date_wrapper (JObj ps) = None \<Longrightarrow> rewrite_value lg (JObj ps) = rewrite lg (JObj ps)"
  by (simp_all add: trips_def rewrite_def)

lemma wrapped_obj:
  "date_wrapper (JObj ps) = Some s \<Longrightarrow> \<not> trips_value (JObj ps)"
  "date_wrapper (JObj ps) = Some s \<Longrightarrow> rewrite_value lg (JObj ps) = new_Date lg s"
  by simp_all

lemma arr_value:
  "trips_value (JArr xs) = trips (JArr xs)"
  "rewrite_value lg (JArr xs) = rewrite lg (JArr xs)"
  by (simp_all add: trips_def rewrite_def)

lemma traversal_char:
  "convertDateStrings_in md lg v =
     (if md = MongoService \<and> trips v then Inl shadow_error else Inr (rewrite lg v))"
  "fst ` set rest \<subseteq> fst ` set obj \<Longrightarrow> convert_props md lg obj rest =
     (if md = MongoService \<and> ((rest \<noteq> [] \<and> map_of obj ''hasOwnProperty'' \<noteq> None)
           \<or> (\<exists>(k, v) \<in> set rest. trips_value v))
      then Inl shadow_error else Inr (map (\<lambda>(k, v). (k, rewrite_value lg v)) rest))"
  "convert_elems md lg xs =
     (if md = MongoService \<and> (\<exists>v \<in> set xs. trips_value v)
      then Inl shadow_error else Inr (map (rewrite_value lg) xs))"
  "convert_value md lg v =
     (if md = MongoService \<and> trips_value v then Inl shadow_error else Inr (rewrite_value lg v))"
proof (induction md lg v and md lg obj rest and md lg xs and md lg v
    rule: convertDateStrings_in_convert_props_convert_elems_convert_value.induct)
  case (1 md legacy ps)
  then show ?case by (auto simp: trips_def rewrite_def)
next
  case (2 md legacy xs)
  then show ?case by (auto simp: trips_def rewrite_def)
next
  case (9 md legacy obj key v rest)
  have k: "key \<in> fst ` set obj" and r: "fst ` set rest \<subseteq> fst ` set obj"
    using 9(3) by auto
  show ?case
  proof (cases "md = MongoService \<and> map_of obj ''hasOwnProperty'' \<noteq> None")
    case True
    then show ?thesis using k by (simp add: guard_MongoService)
  next
    case False
    then have g: "own_property_guard md obj key = Inr True"
      using k by (cases md) (auto simp: guard_MongoService guard_QueryGenerator)
    show ?thesis
    proof (cases "md = MongoService \<and> trips_value v")
      case True
      with 9(1)[OF g] g show ?thesis by (simp del: convert_value.simps)
    next
      case nt: False
      with 9(1)[OF g] have cv: "convert_value md legacy v = Inr (rewrite_value legacy v)"
        by auto
      have "(if True then convert_value md legacy v else Inr v) = Inr (rewrite_value legacy v)"
        using cv by simp
      from 9(2)[OF g this r] cv g nt False show ?thesis
        by (auto simp del: convert_value.simps)
    qed
  qed
next
  case (11 md legacy v rest)
  show ?case
  proof (cases "md = MongoService \<and> trips_value v")
    case True
    with 11(1) show ?thesis by (simp del: convert_value.simps)
  next
    case False
    with 11(1) have cv: "convert_value md legacy v = Inr (rewrite_value legacy v)"
      by auto
    from 11(2)[OF cv] cv False show ?thesis
      by (auto simp del: convert_value.simps)
  qed
next
  case (12 md legacy v)
  show ?case
  proof (cases v)
    case (JArr xs)
    with 12(1) show ?thesis by (simp add: arr_value del: trips_value.simps rewrite_value.simps)
  next
    case (JObj ps)
    show ?thesis
    proof (cases "date_wrapper v")
      case None
      with 12(2) JObj show ?thesis
        by (simp add: unwrapped_obj del: trips_value.simps rewrite_value.simps)
    next
      case (Some s)
      with JObj show ?thesis
        by (simp add: wrapped_obj del: trips_value.simps rewrite_value.simps)
    qed
  next
    case (JDate t)
    with 12(3) show ?thesis by (simp add: trips_def rewrite_def)
  qed simp_all
qed (simp_all add: trips_def rewrite_def)

lemma convertDateStrings_qg_eq: "convertDateStrings_qg lg v = Inr (rewrite lg v)"
  by (simp add: convertDateStrings_qg_def traversal_char(1))

lemma convertDateStrings_eq:
  "convertDateStrings lg v = (if trips v then Inl shadow_error else Inr (rewrite lg v))"
  by (simp add: convertDateStrings_def traversal_char(1))

lemma convertDateStrings_Inr: "convertDateStrings lg v = Inr v' \<longleftrightarrow> \<not> trips v \<and> v' = rewrite lg v"
  by (auto simp: convertDateStrings_eq)

lemma map_of_rewritten:
  "map_of (map (\<lambda>(k, v). (k, f v)) ps) key = map_option f (map_of ps key)"
  by (induction ps) auto

lemma bex_rewritten:
  "(\<And>k v. (k, v) \<in> set ps \<Longrightarrow> P (f v) = Q v) \<Longrightarrow>
     (\<exists>(k, v) \<in> set (map (\<lambda>(k, v). (k, f v)) ps). P v) = (\<exists>(k, v) \<in> set ps. Q v)"
proof -
  assume h: "\<And>k v. (k, v) \<in> set ps \<Longrightarrow> P (f v) = Q v"
  have "\<And>x. x \<in> set ps \<Longrightarrow> P (f (snd x)) = Q (snd x)"
    using h by (metis prod.collapse)
  then show ?thesis
    by (simp add: case_prod_unfold)
qed

lemma rewrite_value_JStr:
  "rewrite_value lg v = JStr s \<Longrightarrow> v = JStr s"
  by (cases v) (auto simp: new_Date_def split: option.splits if_splits)

lemma date_wrapper_JObj:
  "date_wrapper (JObj ps) = Some s \<longleftrightarrow> (map_of ps ''$date'' = Some (JStr s) \<and> s \<noteq> [])"
  by (auto simp: date_wrapper_def split: option.splits jsval.splits)

lemma date_wrapper_rewritten:
  assumes "date_wrapper (JObj ps) = None"
  shows "date_wrapper (JObj (map (\<lambda>(k, v). (k, rewrite_value lg v)) ps)) = None"
proof (rule ccontr)
  assume "date_wrapper (JObj (map (\<lambda>(k, v). (k, rewrite_value lg v)) ps)) \<noteq> None"
  then obtain s where "date_wrapper (JObj (map (\<lambda>(k, v). (k, rewrite_value lg v)) ps)) = Some s"
    by auto
  then have m: "map_option (rewrite_value lg) (map_of ps ''$date'') = Some (JStr s)" and s: "s \<noteq> []"
    by (simp_all add: date_wrapper_JObj map_of_rewritten)
  from m obtain u where u: "map_of ps ''$date'' = Some u" "rewrite_value lg u = JStr s"
    by auto
  then have "u = JStr s" by (simp add: rewrite_value_JStr)
  with u s have "date_wrapper (JObj ps) = Some s" by (simp add: date_wrapper_JObj)
  with assms show False by simp
qed

lemma rewrite_value_idem: "rewrite_value lg (rewrite_value lg v) = rewrite_value lg v"
proof (induction lg v rule: rewrite_value.induct)
  case (1 legacy s)
  then show ?case by (simp add: new_Date_def)
next
  case (2 legacy ps)
  show ?case
  proof (cases "date_wrapper (JObj ps)")
    case None
    have "map (\<lambda>(k, v). (k, rewrite_value legacy v)) (map (\<lambda>(k, v). (k, rewrite_value legacy v)) ps)
          = map (\<lambda>(k, v). (k, rewrite_value legacy v)) ps"
      using 2[OF None] by (auto simp: case_prod_unfold)
    with None date_wrapper_rewritten[OF None, of legacy] show ?thesis by simp
  next
    case (Some s)
    then show ?thesis by (simp add: new_Date_def)
  qed
next
  case (3 legacy xs)
  then show ?case by simp
qed simp_all

lemma rewrite_idem: "rewrite lg (rewrite lg v) = rewrite lg v"
  by (cases v) (auto simp: rewrite_def rewrite_value_idem)

lemma trips_value_rewritten: "trips_value (rewrite_value lg v) = trips_value v"
proof (induction lg v rule: rewrite_value.induct)
  case (1 legacy s)
  then show ?case by (simp add: new_Date_def)
next
  case (2 legacy ps)
  show ?case
  proof (cases "date_wrapper (JObj ps)")
    case None
    have a: "(\<exists>(k, v) \<in> set (map (\<lambda>(k, v). (k, rewrite_value legacy v)) ps). trips_value v)
          = (\<exists>(k, v) \<in> set ps. trips_value v)"
      by (rule bex_rewritten) (rule 2[OF None _ refl])
    have b: "(map_of (map (\<lambda>(k, v). (k, rewrite_value legacy v)) ps) ''hasOwnProperty'' \<noteq> None)
          = (map_of ps ''hasOwnProperty'' \<noteq> None)"
      by (simp add: map_of_rewritten)
    from a b None date_wrapper_rewritten[OF None, of legacy] show ?thesis
      by simp
  next
    case (Some s)
    then show ?thesis by (simp add: new_Date_def)
  qed
next
  case (3 legacy xs)
  then show ?case by simp
qed simp_all

lemma trips_rewritten: "trips (rewrite lg v) = trips v"
proof (cases v)
  case (JObj ps)
  have "(\<exists>(k, v) \<in> set (map (\<lambda>(k, v). (k, rewrite_value lg v)) ps). trips_value v)
          = (\<exists>(k, v) \<in> set ps. trips_value v)"
    by (rule bex_rewritten) (rule trips_value_rewritten)
  with JObj show ?thesis by (simp add: trips_def rewrite_def map_of_rewritten)
next
  case (JArr xs)
  then show ?thesis by (simp add: trips_def rewrite_def trips_value_rewritten)
qed (simp_all add: trips_def rewrite_def)

lemma child_rewrite_value:
  "date_wrapper v = None \<Longrightarrow> child (rewrite_value lg v) s = map_option (rewrite_value lg) (child v s)"
  by (cases v; cases s) (auto simp: map_of_rewritten new_Date_def date_wrapper_def)

lemma child_rewrite:
  "child (rewrite lg v) s = map_option (rewrite_value lg) (child v s)"
  by (cases v; cases s) (auto simp: map_of_rewritten rewrite_def)

lemma at_path_rewrite_value:
  "at_path v p = Some u \<Longrightarrow> \<not> passes_wrapper v p \<Longrightarrow>
     at_path (rewrite_value lg v) p = Some (rewrite_value lg u)"
proof (induction p arbitrary: v)
  case Nil
  then show ?case by simp
next
  case (Cons s p)
  from Cons.prems obtain c where c: "child v s = Some c" "at_path c p = Some u"
    by (auto split: option.splits)
  from Cons.prems c have nw: "date_wrapper v = None" "\<not> passes_wrapper c p"
    by auto
  from Cons.IH[OF c(2) nw(2)] c nw show ?case
    by (simp add: child_rewrite_value)
qed

lemma at_path_rewrite:
  "child S s = Some c \<Longrightarrow> at_path c p = Some u \<Longrightarrow> \<not> passes_wrapper c p \<Longrightarrow>
     at_path (rewrite lg S) (s # p) = Some (rewrite_value lg u)"
  by (simp add: child_rewrite at_path_rewrite_value)

lemma convertDateStrings_qg_total: "\<exists>v'. convertDateStrings_qg legacy v = Inr v'"
  by (simp add: convertDateStrings_qg_eq)

lemma convertDateStrings_agree:
  "convertDateStrings legacy v = Inr v' \<Longrightarrow> convertDateStrings_qg legacy v = Inr v'"
  by (simp add: convertDateStrings_Inr convertDateStrings_qg_eq)

lemma convertDateStrings_qg_idempotent:
  "convertDateStrings_qg legacy S = Inr S' \<Longrightarrow> convertDateStrings_qg legacy S' = Inr S'"
  by (auto simp: convertDateStrings_qg_eq rewrite_idem)

lemma iso_example_matches: "isoDateRegex_test ''2025-03-14T00:00:00.000Z''"
  by (simp add: isoDateRegex_test_def seconds_atoms_def millis_atoms_def is_digit_def)

lemma iso_example_instant: "parse_utc_timestamp ''2025-03-14T00:00:00.000Z'' = Some 1741910400000"
  by code_simp

lemma soon_unparsed: "parse_utc_timestamp ''soon'' = None"
  by (simp add: parse_utc_timestamp_def seconds_atoms_def is_digit_def)

lemma iso_example_date: "new_Date legacy ''2025-03-14T00:00:00.000Z'' = JDate (Some 1741910400000)"
  by (simp add: new_Date_def time_value_def iso_example_instant)

text \<open>
  C1 (as amended). Let the string \<^verbatim>\<open>"2025-03-14T00:00:00.000Z"\<close>, or an object whose
  \<^verbatim>\<open>$date\<close> property is that string, stand at a path of at least one step below the
  root, with no \<^verbatim>\<open>$date\<close> wrapper strictly between the root and it. Then the traversal
  of queryGenerator.js returns a structure holding at that path the native date with
  time value 1741910400000 (14 March 2025, 00:00:00.000 UTC), and so does the traversal
  of mongoService.js whenever it returns. The wrapper key is \<^verbatim>\<open>$date\<close>; an object
  \<^verbatim>\<open>{"dateValue": ...}\<close> is an ordinary object.
\<close>

theorem date_equivalence:
  assumes "child S s = Some c" and "at_path c p = Some v" and "\<not> passes_wrapper c p"
    and "v = JStr ''2025-03-14T00:00:00.000Z'' \<or> date_wrapper v = Some ''2025-03-14T00:00:00.000Z''"
  shows "(\<exists>S'. convertDateStrings_qg legacy S = Inr S'
              \<and> at_path S' (s # p) = Some (JDate (Some 1741910400000)))
       \<and> (\<forall>S'. convertDateStrings legacy S = Inr S'
              \<longrightarrow> at_path S' (s # p) = Some (JDate (Some 1741910400000)))"
proof -
  have "rewrite_value legacy v = JDate (Some 1741910400000)"
  proof (cases v)
    case (JStr x)
    with assms(4) show ?thesis
      by (auto simp: iso_example_matches iso_example_date date_wrapper_def)
  next
    case (JObj ps)
    with assms(4) show ?thesis
      by (auto simp: iso_example_date)
  qed (use assms(4) in \<open>auto simp: date_wrapper_def\<close>)
  with at_path_rewrite[OF assms(1-3), of legacy]
  have "at_path (rewrite legacy S) (s # p) = Some (JDate (Some 1741910400000))"
    by simp
  then show ?thesis
    by (auto simp: convertDateStrings_qg_eq convertDateStrings_Inr)
qed

lemma example_pipeline_run:
  "convertDateStrings no_fallback example_pipeline = Inr example_pipeline_normalized"
  by (simp add: convertDateStrings_eq trips_def rewrite_def example_pipeline_def
      example_pipeline_normalized_def date_wrapper_def iso_example_matches iso_example_date)

text \<open>The theorem at a pipeline with the string and the wrapper three levels down.\<close>

theorem date_equivalence_witness:
  "child example_pipeline (Index 0)
     = Some (JObj [(''$match'', JObj [(''sessionDate'',
        JObj [(''$gte'', JStr ''2025-03-14T00:00:00.000Z''),
              (''$lt'', JObj [(''$date'', JStr ''2025-03-14T00:00:00.000Z'')])])])])
   \<and> (\<exists>S'. convertDateStrings_qg no_fallback example_pipeline = Inr S'
          \<and> at_path S' [Index 0, Key ''$match'', Key ''sessionDate'', Key ''$lt'']
              = Some (JDate (Some 1741910400000)))
   \<and> convertDateStrings no_fallback example_pipeline = Inr example_pipeline_normalized
   \<and> at_path example_pipeline_normalized [Index 0, Key ''$match'', Key ''sessionDate'', Key ''$lt'']
        = Some (JDate (Some 1741910400000))"
proof -
  let ?c = "JObj [(''$match'', JObj [(''sessionDate'',
        JObj [(''$gte'', JStr ''2025-03-14T00:00:00.000Z''),
              (''$lt'', JObj [(''$date'', JStr ''2025-03-14T00:00:00.000Z'')])])])]"
  let ?p = "[Key ''$match'', Key ''sessionDate'', Key ''$lt'']"
  let ?v = "JObj [(''$date'', JStr ''2025-03-14T00:00:00.000Z'')]"
  have h1: "child example_pipeline (Index 0) = Some ?c"
    by (simp add: example_pipeline_def)
  have h2: "at_path ?c ?p = Some ?v" by simp
  have h3: "\<not> passes_wrapper ?c ?p" by (simp add: date_wrapper_def)
  have h4: "?v = JStr ''2025-03-14T00:00:00.000Z'' \<or> date_wrapper ?v = Some ''2025-03-14T00:00:00.000Z''"
    by (simp add: date_wrapper_def)
  from date_equivalence[OF h1 h2 h3 h4, of no_fallback] h1 example_pipeline_run
  show ?thesis by simp
qed

text \<open>
  C1 as stated fails: an object \<^verbatim>\<open>{"dateValue": "2025-03-14T00:00:00.000Z"}\<close> is not
  replaced by the date; it stays an object, whose property becomes the date. And the
  string below a \<^verbatim>\<open>$date\<close> wrapper is not replaced: it goes with the wrapper.
\<close>

theorem dateValue_wrapper_stays_an_object:
  "convertDateStrings_qg no_fallback (JArr [JObj [(''dateValue'', JStr ''2025-03-14T00:00:00.000Z'')]])
     = Inr (JArr [JObj [(''dateValue'', JDate (Some 1741910400000))]])
   \<and> convertDateStrings no_fallback (JArr [JObj [(''dateValue'', JStr ''2025-03-14T00:00:00.000Z'')]])
     = Inr (JArr [JObj [(''dateValue'', JDate (Some 1741910400000))]])
   \<and> JObj [(''dateValue'', JDate (Some 1741910400000))] \<noteq> JDate (Some 1741910400000)
   \<and> convertDateStrings_qg no_fallback
         (JObj [(''at'', JObj [(''$date'', JStr ''soon''), (''until'', JStr ''2025-03-14T00:00:00.000Z'')])])
     = Inr (JObj [(''at'', JDate None)])"
  by (simp add: convertDateStrings_eq convertDateStrings_qg_eq trips_def rewrite_def
      date_wrapper_def iso_example_matches iso_example_instant new_Date_def time_value_def
      no_fallback_def soon_unparsed)

text \<open>
  C5. Both copies of the normalizer are idempotent: normalizing and then normalizing
  the result is the same as normalizing once; a structure a copy returns is returned
  unchanged when it is normalized again.
\<close>

theorem convertDateStrings_idempotent:
  "(case convertDateStrings legacy S of
      Inl e \<Rightarrow> Inl e
    | Inr S' \<Rightarrow> convertDateStrings legacy S') = convertDateStrings legacy S
   \<and> (case convertDateStrings_qg legacy S of
        Inl e \<Rightarrow> Inl e
      | Inr S' \<Rightarrow> convertDateStrings_qg legacy S') = convertDateStrings_qg legacy S"
  by (simp add: convertDateStrings_eq convertDateStrings_qg_eq rewrite_idem trips_rewritten)

text \<open>The theorem at the example pipeline.\<close>

theorem convertDateStrings_idempotent_witness:
  "convertDateStrings no_fallback example_pipeline = Inr example_pipeline_normalized
   \<and> convertDateStrings no_fallback example_pipeline_normalized = Inr example_pipeline_normalized"
  using convertDateStrings_idempotent[of no_fallback example_pipeline] example_pipeline_run by simp

text \<open>
  C6. The normalizer of mongoService.js is not total: on the pipeline
  \<^verbatim>\<open>[{"$match": {"hasOwnProperty": true}}]\<close>, and on the object
  \<^verbatim>\<open>{"hasOwnProperty": 1}\<close>, the guard \<^verbatim>\<open>obj.hasOwnProperty(key)\<close> calls the value of
  the own property, which is not a function, and raises a TypeError. The copy in queryGenerator.js returns on every input
  (\<open>convertDateStrings_qg_total\<close>).
\<close>

theorem convertDateStrings_raises_on_shadowed_method:
  "convertDateStrings legacy shadowed_query
     = Inl (TypeError ''obj.hasOwnProperty is not a function'')
   \<and> convertDateStrings legacy (JObj [(''hasOwnProperty'', JNum (Finite 1))])
     = Inl (TypeError ''obj.hasOwnProperty is not a function'')"
  by (simp add: convertDateStrings_def own_property_guard_def shadowed_query_def date_wrapper_def)

text \<open>
  C10 (as amended). Take an object that stands at a path of at least one step below the
  root, with no \<^verbatim>\<open>$date\<close> wrapper strictly above it, and whose \<^verbatim>\<open>$date\<close> property is
  a string. If the string is not empty, the object is replaced as a whole by the date
  constructed from that string, whether or not the string matches the pattern and
  whatever other properties the object has. If the string is empty, the object is not
  replaced: it stays an object with the same keys, its properties normalized in turn
  and its \<^verbatim>\<open>$date\<close> still the empty string. (In mongoService.js: whenever the traversal
  returns.)
\<close>

theorem date_wrapper_replaced:
  assumes "child S s = Some c" and "at_path c p = Some (JObj ps)" and "\<not> passes_wrapper c p"
    and "map_of ps ''$date'' = Some (JStr d)"
  shows "(d \<noteq> [] \<longrightarrow>
            (\<exists>S'. convertDateStrings_qg legacy S = Inr S'
                  \<and> at_path S' (s # p) = Some (new_Date legacy d))
          \<and> (\<forall>S'. convertDateStrings legacy S = Inr S'
                  \<longrightarrow> at_path S' (s # p) = Some (new_Date legacy d)))
       \<and> (d = [] \<longrightarrow>
            (\<exists>S' qs. convertDateStrings_qg legacy S = Inr S'
                  \<and> at_path S' (s # p) = Some (JObj qs)
                  \<and> qs = map (\<lambda>(k, v). (k, rewrite_value legacy v)) ps
                  \<and> map fst qs = map fst ps
                  \<and> map_of qs ''$date'' = Some (JStr []))
          \<and> (\<forall>S'. convertDateStrings legacy S = Inr S'
                  \<longrightarrow> (\<exists>qs. at_path S' (s # p) = Some (JObj qs)
                         \<and> qs = map (\<lambda>(k, v). (k, rewrite_value legacy v)) ps
                         \<and> map fst qs = map fst ps
                         \<and> map_of qs ''$date'' = Some (JStr []))))"
proof (intro conjI impI)
  assume d: "d \<noteq> []"
  have "rewrite_value legacy (JObj ps) = new_Date legacy d"
    using assms(4) d by (simp add: date_wrapper_def)
  with at_path_rewrite[OF assms(1-3), of legacy]
  have at: "at_path (rewrite legacy S) (s # p) = Some (new_Date legacy d)"
    by simp
  from at show "\<exists>S'. convertDateStrings_qg legacy S = Inr S'
                  \<and> at_path S' (s # p) = Some (new_Date legacy d)"
    by (simp add: convertDateStrings_qg_eq)
  from at show "\<forall>S'. convertDateStrings legacy S = Inr S'
                  \<longrightarrow> at_path S' (s # p) = Some (new_Date legacy d)"
    by (simp add: convertDateStrings_Inr)
next
  assume d: "d = []"
  let ?qs = "map (\<lambda>(k, v). (k, rewrite_value legacy v)) ps"
  have "rewrite_value legacy (JObj ps) = JObj ?qs"
    using assms(4) d by (simp add: date_wrapper_def)
  with at_path_rewrite[OF assms(1-3), of legacy]
  have at: "at_path (rewrite legacy S) (s # p) = Some (JObj ?qs)"
    by simp
  have "\<not> isoDateRegex_test []"
    by (simp add: isoDateRegex_test_def seconds_atoms_def)
  then have m: "map_of ?qs ''$date'' = Some (JStr [])"
    using assms(4) d by (simp add: map_of_rewritten)
  have k: "map fst ?qs = map fst ps"
    by (induction ps) auto
  from at m k show "\<exists>S' qs. convertDateStrings_qg legacy S = Inr S'
                  \<and> at_path S' (s # p) = Some (JObj qs)
                  \<and> qs = map (\<lambda>(k, v). (k, rewrite_value legacy v)) ps
                  \<and> map fst qs = map fst ps
                  \<and> map_of qs ''$date'' = Some (JStr [])"
    by (simp add: convertDateStrings_qg_eq)
  from at m k show "\<forall>S'. convertDateStrings legacy S = Inr S'
                  \<longrightarrow> (\<exists>qs. at_path S' (s # p) = Some (JObj qs)
                         \<and> qs = map (\<lambda>(k, v). (k, rewrite_value legacy v)) ps
                         \<and> map fst qs = map fst ps
                         \<and> map_of qs ''$date'' = Some (JStr []))"
    by (simp add: convertDateStrings_Inr)
qed

text \<open>
  The theorem at a wrapper with a second key and a string outside the pattern, and at
  the same object with the empty string under \<^verbatim>\<open>$date\<close>.
\<close>

theorem date_wrapper_replaced_witness:
  "child wrapper_example (Key ''createdAt'')
      = Some (JObj [(''$date'', JStr ''yesterday''), (''tz'', JStr ''UTC'')])
   \<and> \<not> isoDateRegex_test ''yesterday''
   \<and> convertDateStrings_qg no_fallback wrapper_example
      = Inr (JObj [(''createdAt'', new_Date no_fallback ''yesterday'')])
   \<and> convertDateStrings no_fallback wrapper_example
      = Inr (JObj [(''createdAt'', new_Date no_fallback ''yesterday'')])
   \<and> child empty_wrapper_example (Key ''createdAt'')
      = Some (JObj [(''$date'', JStr []), (''tz'', JStr ''UTC'')])
   \<and> convertDateStrings_qg no_fallback empty_wrapper_example = Inr empty_wrapper_example
   \<and> convertDateStrings no_fallback empty_wrapper_example = Inr empty_wrapper_example"
proof -
  let ?ps = "[(''$date'', JStr ''yesterday''), (''tz'', JStr ''UTC'')]"
  let ?es = "[(''$date'', JStr []), (''tz'', JStr ''UTC'')]"
  have h1: "child wrapper_example (Key ''createdAt'') = Some (JObj ?ps)"
    by (simp add: wrapper_example_def)
  have h2: "at_path (JObj ?ps) [] = Some (JObj ?ps)" by simp
  have h3: "\<not> passes_wrapper (JObj ?ps) []" by simp
  have h4: "map_of ?ps ''$date'' = Some (JStr ''yesterday'')" by simp
  have r: "\<not> isoDateRegex_test ''yesterday''"
    by (simp add: isoDateRegex_test_def seconds_atoms_def is_digit_def)
  have ms: "\<not> trips wrapper_example"
    by (simp add: trips_def wrapper_example_def date_wrapper_def)
  have shape: "\<And>S'. at_path S' [Key ''createdAt''] = Some (new_Date no_fallback ''yesterday'')
      \<Longrightarrow> S' = rewrite no_fallback wrapper_example
      \<Longrightarrow> S' = JObj [(''createdAt'', new_Date no_fallback ''yesterday'')]"
    by (simp add: rewrite_def wrapper_example_def date_wrapper_def)
  have e1: "child empty_wrapper_example (Key ''createdAt'') = Some (JObj ?es)"
    by (simp add: empty_wrapper_example_def)
  have e2: "at_path (JObj ?es) [] = Some (JObj ?es)" by simp
  have e3: "\<not> passes_wrapper (JObj ?es) []" by simp
  have e4: "map_of ?es ''$date'' = Some (JStr [])" by simp
  have u: "\<not> isoDateRegex_test ''UTC''"
    by (simp add: isoDateRegex_test_def seconds_atoms_def is_digit_def)
  have n: "\<not> isoDateRegex_test []"
    by (simp add: isoDateRegex_test_def seconds_atoms_def)
  have ems: "\<not> trips empty_wrapper_example"
    by (simp add: trips_def empty_wrapper_example_def date_wrapper_def)
  have eshape: "\<And>S' qs. at_path S' [Key ''createdAt''] = Some (JObj qs)
      \<Longrightarrow> qs = map (\<lambda>(k, v). (k, rewrite_value no_fallback v)) ?es
      \<Longrightarrow> S' = rewrite no_fallback empty_wrapper_example
      \<Longrightarrow> S' = empty_wrapper_example"
    using u n by (simp add: rewrite_def empty_wrapper_example_def date_wrapper_def)
  have a: "convertDateStrings_qg no_fallback wrapper_example
             = Inr (JObj [(''createdAt'', new_Date no_fallback ''yesterday'')])
         \<and> convertDateStrings no_fallback wrapper_example
             = Inr (JObj [(''createdAt'', new_Date no_fallback ''yesterday'')])"
    using date_wrapper_replaced[OF h1 h2 h3 h4, of no_fallback] ms shape
    by (auto simp: convertDateStrings_qg_eq convertDateStrings_Inr)
  have b: "convertDateStrings_qg no_fallback empty_wrapper_example = Inr empty_wrapper_example
         \<and> convertDateStrings no_fallback empty_wrapper_example = Inr empty_wrapper_example"
    using date_wrapper_replaced[OF e1 e2 e3 e4, of no_fallback] ems eshape
    by (auto simp: convertDateStrings_qg_eq convertDateStrings_Inr)
  from a b h1 r e1 show ?thesis by simp
qed

text \<open>
  C10 as stated fails: an object whose \<^verbatim>\<open>$date\<close> property is the empty string carries a
  string-valued \<^verbatim>\<open>$date\<close>, and is not replaced; nor is the object the traversal is
  called on.
\<close>

theorem empty_date_wrapper_is_kept:
  "convertDateStrings_qg no_fallback (JObj [(''createdAt'', JObj [(''$date'', JStr [])])])
     = Inr (JObj [(''createdAt'', JObj [(''$date'', JStr [])])])
   \<and> convertDateStrings no_fallback (JObj [(''createdAt'', JObj [(''$date'', JStr [])])])
     = Inr (JObj [(''createdAt'', JObj [(''$date'', JStr [])])])
   \<and> convertDateStrings_qg no_fallback (JObj [(''$date'', JStr ''yesterday'')])
     = Inr (JObj [(''$date'', JStr ''yesterday'')])"
  by (simp add: convertDateStrings_eq convertDateStrings_qg_eq trips_def rewrite_def
      date_wrapper_def isoDateRegex_test_def seconds_atoms_def is_digit_def)

section \<open>Properties of the Query Executor and the Translator\<close>

subsection \<open>The retry loop\<close>

lemma retry_loop_exhausted:
  "\<not> attempt < maxRetries \<Longrightarrow>
     retry_loop gen host r maxRetries attempt cur evlog w = (ReturnedUndefined, evlog, w)"
  by (subst retry_loop.simps) simp

lemma retry_loop_step:
  "attempt < maxRetries \<Longrightarrow>
     retry_loop gen host r maxRetries attempt cur evlog w =
       (case iterate gen host r maxRetries attempt cur w of
          (Done results, evs, w') \<Rightarrow> (Returned results, evlog @ evs, w')
        | (Failed e, evs, w') \<Rightarrow> (Thrown e, evlog @ evs, w')
        | (Retry fixed, evs, w') \<Rightarrow>
            retry_loop gen host r maxRetries (attempt + 1) fixed (evlog @ evs) w')"
  by (subst retry_loop.simps) simp

lemma try_attempt_rejected:
  "convertDateStrings (legacy_date host) (deep_copy cur) = Inr pq \<Longrightarrow>
   aggregate host w pq = (Inl e, w1) \<Longrightarrow>
   try_attempt host cur w = (Inl e, [StoreAttempt pq], w1)"
  by (simp add: try_attempt_def)

lemma try_attempt_raised:
  "convertDateStrings (legacy_date host) (deep_copy cur) = Inl e \<Longrightarrow>
   try_attempt host cur w = (Inl e, [], w)"
  by (simp add: try_attempt_def)

lemma try_attempt_events:
  "try_attempt host cur w = (r, evs, w') \<Longrightarrow>
     length (filter is_store_attempt evs) \<le> 1 \<and> filter is_repair_call evs = []"
  by (auto simp: try_attempt_def split: sum.splits prod.splits)

lemma iterate_last_attempt:
  "try_attempt host cur w = (Inl e, evs, w1) \<Longrightarrow>
   iterate gen host r maxRetries (maxRetries - 1) cur w =
     (Failed (Error (''Database query failed after '' @ show_int maxRetries @ '' attempts: ''
                     @ message e)), evs, w1)"
  by (simp add: iterate_def)

lemma iterate_repaired:
  "try_attempt host cur w = (Inl e, evs, w1) \<Longrightarrow> attempt \<noteq> maxRetries - 1 \<Longrightarrow>
   fixQuery gen host w1 r (message e) cur = (Inr fixed, w2) \<Longrightarrow>
   iterate gen host r maxRetries attempt cur w =
     (Retry fixed, evs @ [RepairCall r (message e) cur], w2)"
  by (simp add: iterate_def)

lemma iterate_repair_raised:
  "try_attempt host cur w = (Inl e, evs, w1) \<Longrightarrow> attempt \<noteq> maxRetries - 1 \<Longrightarrow>
   fixQuery gen host w1 r (message e) cur = (Inl fe, w2) \<Longrightarrow>
   iterate gen host r maxRetries attempt cur w =
     (Failed (Error (''Query could not be fixed: '' @ message fe)),
      evs @ [RepairCall r (message e) cur], w2)"
  by (simp add: iterate_def)

lemma iterate_succeeded:
  "try_attempt host cur w = (Inr results, evs, w1) \<Longrightarrow>
   iterate gen host r maxRetries attempt cur w = (Done results, evs, w1)"
  by (simp add: iterate_def)

lemma show_int_2: "show_int 2 = ''2''"
  by code_simp

lemma retry_bound:
  assumes norm1: "convertDateStrings (legacy_date host) (deep_copy q) = Inr pq"
    and store1: "aggregate host w pq = (Inl e1, w1)"
    and repair: "fixQuery gen host w1 r (message e1) q = (Inr q2, w2)"
    and norm2: "convertDateStrings (legacy_date host) (deep_copy q2) = Inr pq2"
    and store2: "aggregate host w2 pq2 = (Inl e2, w3)"
  shows "executeQueryWithRetry gen host q r 2 w =
           (Thrown (Error (''Database query failed after 2 attempts: '' @ message e2)),
            [StoreAttempt pq, RepairCall r (message e1) q, StoreAttempt pq2], w3)"
proof -
  have i0: "iterate gen host r 2 0 q w = (Retry q2, [StoreAttempt pq, RepairCall r (message e1) q], w2)"
    using iterate_repaired[OF try_attempt_rejected[OF norm1 store1] _ repair, of 0 2] by simp
  have i1: "iterate gen host r 2 1 q2 w2 =
      (Failed (Error (''Database query failed after 2 attempts: '' @ message e2)),
       [StoreAttempt pq2], w3)"
    using iterate_last_attempt[OF try_attempt_rejected[OF norm2 store2], of gen r 2]
    by (simp add: show_int_2)
  show ?thesis
    by (simp add: executeQueryWithRetry_def retry_loop_step i0 i1)
qed

lemma retry_bound_counts:
  assumes "convertDateStrings (legacy_date host) (deep_copy q) = Inr pq"
    and "aggregate host w pq = (Inl e1, w1)"
    and "fixQuery gen host w1 r (message e1) q = (Inr q2, w2)"
    and "convertDateStrings (legacy_date host) (deep_copy q2) = Inr pq2"
    and "aggregate host w2 pq2 = (Inl e2, w3)"
  shows "store_attempts (executeQueryWithRetry gen host q r 2 w) = 2"
    and "repair_calls (executeQueryWithRetry gen host q r 2 w) = 1"
  by (simp_all add: retry_bound[OF assms] store_attempts_def repair_calls_def)

lemma retry_success:
  assumes norm1: "convertDateStrings (legacy_date host) (deep_copy q) = Inr pq"
    and store1: "aggregate host w pq = (Inl e1, w1)"
    and repair: "fixQuery gen host w1 r (message e1) q = (Inr q2, w2)"
    and norm2: "convertDateStrings (legacy_date host) (deep_copy q2) = Inr pq2"
    and store2: "aggregate host w2 pq2 = (Inr records, w3)"
  shows "executeQueryWithRetry gen host q r 2 w =
           (Returned records, [StoreAttempt pq, RepairCall r (message e1) q, StoreAttempt pq2], w3)"
proof -
  have i0: "iterate gen host r 2 0 q w = (Retry q2, [StoreAttempt pq, RepairCall r (message e1) q], w2)"
    using iterate_repaired[OF try_attempt_rejected[OF norm1 store1] _ repair, of 0 2] by simp
  have "try_attempt host q2 w2 = (Inr records, [StoreAttempt pq2], w3)"
    using norm2 store2 by (simp add: try_attempt_def)
  then have i1: "iterate gen host r 2 1 q2 w2 = (Done records, [StoreAttempt pq2], w3)"
    by (rule iterate_succeeded)
  show ?thesis
    by (simp add: executeQueryWithRetry_def retry_loop_step i0 i1)
qed

text \<open>
  C3. With a bound of at least 2, when the first store attempt fails and the repair
  call that follows raises, the run ends at once with an error: its events are that one
  store attempt and that one repair call, and no second store attempt.
\<close>

theorem repair_short_circuit:
  assumes "2 \<le> maxRetries"
    and "convertDateStrings (legacy_date host) (deep_copy q) = Inr pq"
    and "aggregate host w pq = (Inl e, w1)"
    and "fixQuery gen host w1 r (message e) q = (Inl fe, w2)"
  shows "executeQueryWithRetry gen host q r maxRetries w =
           (Thrown (Error (''Query could not be fixed: '' @ message fe)),
            [StoreAttempt pq, RepairCall r (message e) q], w2)"
proof -
  have "0 \<noteq> maxRetries - 1" using assms(1) by simp
  from iterate_repair_raised[OF try_attempt_rejected[OF assms(2,3)] this assms(4)]
  have "iterate gen host r maxRetries 0 q w =
      (Failed (Error (''Query could not be fixed: '' @ message fe)),
       [StoreAttempt pq, RepairCall r (message e) q], w2)"
    by simp
  moreover have "0 < maxRetries" using assms(1) by simp
  ultimately show ?thesis
    by (simp add: executeQueryWithRetry_def retry_loop_step)
qed

lemma plain_query_processed:
  "convertDateStrings no_fallback (deep_copy plain_query) = Inr plain_query"
  by (simp add: plain_query_def convertDateStrings_eq trips_def rewrite_def date_wrapper_def
      isoDateRegex_test_def seconds_atoms_def is_digit_def)

lemma stub_fix_unparseable:
  "fixQuery stub_generator (stub_host ''I cannot help'') w r m q
     = (Inl (Error ''Failed to fix query: Unexpected token''), Suc w)"
  by (simp add: fixQuery_def stub_host_def stub_answer_def fixQuery_parse_def trim_def is_space_def
      strip_fences_def fence_def stub_parse_def)

text \<open>The theorem at a store that rejects and a service whose answer does not parse.\<close>

theorem repair_short_circuit_witness:
  "(2::int) \<le> 5
   \<and> executeQueryWithRetry stub_generator (stub_host ''I cannot help'') plain_query ''top domains'' 5 0 =
       (Thrown (Error ''Query could not be fixed: Failed to fix query: Unexpected token''),
        [StoreAttempt plain_query, RepairCall ''top domains'' ''unknown stage'' plain_query], 2)"
proof -
  have h1: "(2::int) \<le> 5" by simp
  have h2: "convertDateStrings (legacy_date (stub_host ''I cannot help'')) (deep_copy plain_query)
      = Inr plain_query"
    by (simp add: stub_host_def plain_query_processed)
  have h3: "aggregate (stub_host ''I cannot help'') 0 plain_query = (Inl (Error ''unknown stage''), 1)"
    by (simp add: stub_host_def stub_reject_def)
  have h4: "fixQuery stub_generator (stub_host ''I cannot help'') 1 ''top domains''
      (message (Error ''unknown stage'')) plain_query
     = (Inl (Error ''Failed to fix query: Unexpected token''), 2)"
    using stub_fix_unparseable[of 1] by simp
  from repair_short_circuit[OF h1 h2 h3 h4] show ?thesis by simp
qed

text \<open>
  C9. With a bound that is not positive the loop body never runs: no store attempt, no
  repair call, the world untouched, and the function returns undefined.
\<close>

theorem no_attempt_when_bound_not_positive:
  "maxRetries \<le> 0 \<Longrightarrow>
     executeQueryWithRetry gen host q r maxRetries w = (ReturnedUndefined, [], w)"
  by (simp add: executeQueryWithRetry_def retry_loop_exhausted)

text \<open>The theorem at the bounds 0 and -3.\<close>

theorem no_attempt_when_bound_not_positive_witness:
  "(0::int) \<le> 0 \<and> (- 3::int) \<le> 0
   \<and> executeQueryWithRetry stub_generator (stub_host ''[]'') plain_query ''top domains'' 0 7
       = (ReturnedUndefined, [], 7)
   \<and> executeQueryWithRetry stub_generator (stub_host ''[]'') plain_query ''top domains'' (- 3) 7
       = (ReturnedUndefined, [], 7)"
  using no_attempt_when_bound_not_positive[of 0 stub_generator "stub_host ''[]''" plain_query "''top domains''" 7]
    no_attempt_when_bound_not_positive[of "- 3" stub_generator "stub_host ''[]''" plain_query "''top domains''" 7]
  by simp

lemma shadowed_query_raises:
  "convertDateStrings legacy (deep_copy shadowed_query) = Inl shadow_error"
  by (simp add: shadowed_query_def convertDateStrings_eq trips_def date_wrapper_def)

text \<open>
  C2. For the query \<^verbatim>\<open>[{"$match": {"hasOwnProperty": true}}]\<close> the normalizer raises
  inside the first \<^verbatim>\<open>try\<close> block, before the store is reached, so a run with bound 2
  makes at most one store attempt, whatever the store and the reasoning service do.
  For a query on which the normalizer returns, \<open>retry_bound\<close> above gives the two
  store attempts, the one repair call and the message that names the 2 attempts and
  the last store error.
\<close>

theorem shadowed_query_skips_store_attempt:
  "store_attempts (executeQueryWithRetry gen host shadowed_query r 2 w) \<le> 1"
proof -
  have t0: "try_attempt host shadowed_query w = (Inl shadow_error, [], w)"
    by (rule try_attempt_raised) (rule shadowed_query_raises)
  obtain fx w2 where fx: "fixQuery gen host w r (message shadow_error) shadowed_query = (fx, w2)"
    by (cases "fixQuery gen host w r (message shadow_error) shadowed_query")
  show ?thesis
  proof (cases fx)
    case (Inl fe)
    with iterate_repair_raised[OF t0 _ fx[unfolded Inl], of 0 2]
    show ?thesis
      by (simp add: executeQueryWithRetry_def retry_loop_step store_attempts_def)
  next
    case (Inr q2)
    have i0: "iterate gen host r 2 0 shadowed_query w
        = (Retry q2, [RepairCall r (message shadow_error) shadowed_query], w2)"
      using iterate_repaired[OF t0 _ fx[unfolded Inr], of 0 2] by simp
    obtain res evs w3 where t1: "try_attempt host q2 w2 = (res, evs, w3)"
      by (cases "try_attempt host q2 w2")
    from try_attempt_events[OF t1] have ev: "length (filter is_store_attempt evs) \<le> 1"
      by simp
    show ?thesis
    proof (cases res)
      case (Inl e2)
      with iterate_last_attempt[OF t1[unfolded Inl], of gen r 2] i0 ev show ?thesis
        by (simp add: executeQueryWithRetry_def retry_loop_step store_attempts_def)
    next
      case (Inr results)
      with iterate_succeeded[OF t1[unfolded Inr], of gen r 2 1] i0 ev show ?thesis
        by (simp add: executeQueryWithRetry_def retry_loop_step store_attempts_def)
    qed
  qed
qed

lemma shadowed_query_run:
  "executeQueryWithRetry stub_generator (stub_host ''[]'') shadowed_query ''by flag'' 2 0 =
     (Thrown (Error ''Database query failed after 2 attempts: unknown stage''),
      [RepairCall ''by flag'' ''obj.hasOwnProperty is not a function'' shadowed_query,
       StoreAttempt (JArr [])], 2)"
proof -
  have fx: "fixQuery stub_generator (stub_host ''[]'') 0 ''by flag'' (message shadow_error) shadowed_query
      = (Inr (JArr []), 1)"
    by (simp add: fixQuery_def stub_host_def stub_answer_def fixQuery_parse_def trim_def is_space_def
      strip_fences_def fence_def stub_parse_def convertDateStrings_qg_eq rewrite_def)
  have t0: "try_attempt (stub_host ''[]'') shadowed_query 0 = (Inl shadow_error, [], 0)"
    by (rule try_attempt_raised) (rule shadowed_query_raises)
  have t1: "try_attempt (stub_host ''[]'') (JArr []) 1 = (Inl (Error ''unknown stage''), [StoreAttempt (JArr [])], 2)"
    by (simp add: try_attempt_def convertDateStrings_eq trips_def rewrite_def stub_host_def stub_reject_def)
  from iterate_repaired[OF t0 _ fx, of 0 2] iterate_last_attempt[OF t1, of stub_generator "''by flag''" 2]
  show ?thesis
    by (simp add: executeQueryWithRetry_def retry_loop_step show_int_2 shadow_error_def)
qed

subsection \<open>The repair call\<close>

lemma fixQuery_unparseable:
  assumes "completions_create host w (fix_messages gen host r m q) = (Inr (Some text), w')"
    and "trim text \<noteq> []"
    and "json_parse host (strip_fences (trim text)) = Inl e"
  shows "fixQuery gen host w r m q = (Inl (Error (''Failed to fix query: '' @ message e)), w')"
  using assms by (simp add: fixQuery_def fixQuery_parse_def)

text \<open>
  C4. When the answer of the reasoning service parses to a value that is not an array,
  \<^verbatim>\<open>fixQuery\<close> returns a value that is not an array: it has no check such as the
  \<^verbatim>\<open>Array.isArray\<close> of \<^verbatim>\<open>generateQuery\<close>. An answer that does not parse does
  raise (\<open>fixQuery_unparseable\<close>).
\<close>

theorem fixQuery_returns_non_array:
  assumes "completions_create host w (fix_messages gen host r m q) = (Inr (Some text), w')"
    and "trim text \<noteq> []"
    and "json_parse host (strip_fences (trim text)) = Inr v"
    and "\<not> is_array v"
  shows "\<exists>v'. fixQuery gen host w r m q = (Inr v', w') \<and> \<not> is_array v'"
proof -
  have "\<not> is_array (rewrite (legacy_date host) v)"
    using assms(4) by (cases v) (simp_all add: is_array_def rewrite_def)
  with assms(1-3) show ?thesis
    by (simp add: fixQuery_def fixQuery_parse_def convertDateStrings_qg_eq)
qed

text \<open>The theorem at the answer \<^verbatim>\<open>{}\<close>.\<close>

theorem fixQuery_returns_non_array_witness:
  "completions_create (stub_host ''{}'') 0 (fix_messages stub_generator (stub_host ''{}'') ''top domains'' ''unknown stage'' plain_query)
      = (Inr (Some ''{}''), 1)
   \<and> trim ''{}'' \<noteq> []
   \<and> json_parse (stub_host ''{}'') (strip_fences (trim ''{}'')) = Inr (JObj [])
   \<and> \<not> is_array (JObj [])
   \<and> (\<exists>v'. fixQuery stub_generator (stub_host ''{}'') 0 ''top domains'' ''unknown stage'' plain_query
              = (Inr v', 1) \<and> \<not> is_array v')"
proof -
  have h1: "completions_create (stub_host ''{}'') 0
      (fix_messages stub_generator (stub_host ''{}'') ''top domains'' ''unknown stage'' plain_query)
      = (Inr (Some ''{}''), 1)"
    by (simp add: stub_host_def stub_answer_def)
  have h2: "trim ''{}'' \<noteq> []" by (simp add: trim_def is_space_def)
  have h3: "json_parse (stub_host ''{}'') (strip_fences (trim ''{}'')) = Inr (JObj [])"
    by (simp add: stub_host_def stub_parse_def trim_def is_space_def strip_fences_def fence_def)
  have h4: "\<not> is_array (JObj [])" by (simp add: is_array_def)
  from fixQuery_returns_non_array[OF h1 h2 h3 h4] h1 h2 h3 h4 show ?thesis by simp
qed

lemma generateQuery_rejects_non_array:
  assumes "isInitialized gen"
    and "completions_create host w (generate_messages gen r) = (Inr (Some text), w')"
    and "trim text \<noteq> []"
    and "json_parse host (strip_fences (trim text)) = Inr v"
    and "\<not> is_array v"
  shows "generateQuery gen host w r =
           (Inl (Error ''Failed to generate MongoDB query: Query must be an array''), w')"
  using assms by (simp add: generateQuery_def generateQuery_parse_def)

section \<open>Properties of the outward boundary\<close>

text \<open>
  C7. A result set of more than 200 records is presented as its first 50 records; a
  result set of at most 200 records is presented in full and in order.
\<close>

theorem truncation:
  "(200 < length R \<longrightarrow> rawResults (query_response_of R) = take 50 R
                      \<and> length (rawResults (query_response_of R)) = 50)
   \<and> (length R \<le> 200 \<longrightarrow> rawResults (query_response_of R) = R)"
  by (simp add: query_response_of_def)

text \<open>The theorem at 201, 200 and 150 records.\<close>

theorem truncation_witness:
  "rawResults (query_response_of (replicate 201 JNull)) = replicate 50 JNull
   \<and> rawResults (query_response_of (replicate 200 JNull)) = replicate 200 JNull
   \<and> rawResults (query_response_of (replicate 150 JNull)) = replicate 150 JNull"
  using truncation[of "replicate 201 JNull"] truncation[of "replicate 200 JNull"]
    truncation[of "replicate 150 JNull"]
  by simp

section \<open>Properties of the attempt on a heap\<close>

lemma laid_le: "laid h lo hi v t \<Longrightarrow> lo \<le> hi"
  and laid_list_le: "laid_list h lo hi vs ts \<Longrightarrow> lo \<le> hi"
  by (induction rule: laid_laid_list.inducts) auto

lemma laid_widen: "laid h lo hi v t \<Longrightarrow> lo' \<le> lo \<Longrightarrow> hi \<le> hi' \<Longrightarrow> laid h lo' hi' v t"
  and laid_list_widen: "laid_list h lo hi vs ts \<Longrightarrow> lo' \<le> lo \<Longrightarrow> hi \<le> hi' \<Longrightarrow> laid_list h lo' hi' vs ts"
proof (induction arbitrary: lo' hi' and lo' hi' rule: laid_laid_list.inducts)
  case (laid_arr h lo a vs ts hi)
  from laid_arr.IH[of lo' a] laid_arr.prems laid_arr.hyps show ?case
    by (auto intro: laid_laid_list.intros)
next
  case (laid_obj h lo a qs ps hi)
  from laid_obj.IH[of lo' a] laid_obj.prems laid_obj.hyps show ?case
    by (auto intro: laid_laid_list.intros)
next
  case (laid_cons h lo mid v t hi vs ts)
  from laid_cons.IH(1)[of lo' mid] laid_cons.IH(2)[of mid hi'] laid_cons.prems show ?case
    by (auto intro: laid_laid_list.intros)
qed (auto intro: laid_laid_list.intros)

lemma laid_list_length: "laid_list h lo hi vs ts \<Longrightarrow> length vs = length ts"
  by (induction vs arbitrary: lo ts) (auto elim: laid_list.cases)

lemma laid_stable:
  "laid h lo hi v t \<Longrightarrow> length h \<le> length h' \<Longrightarrow>
     (\<And>b. b < length h \<Longrightarrow> (lo \<le> b \<and> b < hi) \<or> (\<exists>d. h ! b = ODate d) \<Longrightarrow> h' ! b = h ! b) \<Longrightarrow>
     laid h' lo hi v t"
  and laid_list_stable:
  "laid_list h lo hi vs ts \<Longrightarrow> length h \<le> length h' \<Longrightarrow>
     (\<And>b. b < length h \<Longrightarrow> (lo \<le> b \<and> b < hi) \<or> (\<exists>d. h ! b = ODate d) \<Longrightarrow> h' ! b = h ! b) \<Longrightarrow>
     laid_list h' lo hi vs ts"
proof (induction arbitrary: h' and h' rule: laid_laid_list.inducts)
  case (laid_date lo hi b h d)
  then have "h' ! b = ODate d" by auto
  with laid_date show ?case by (auto intro: laid_laid_list.intros)
next
  case (laid_arr h lo a vs ts hi)
  have "lo \<le> a" using laid_arr.hyps(1) by (rule laid_list_le)
  then have "h' ! a = OArray vs" using laid_arr by auto
  moreover have "laid_list h' lo a vs ts"
    using laid_arr.prems laid_arr.hyps by (intro laid_arr.IH) auto
  ultimately show ?case using laid_arr by (auto intro: laid_laid_list.intros)
next
  case (laid_obj h lo a qs ps hi)
  have "lo \<le> a" using laid_obj.hyps(1) by (rule laid_list_le)
  then have "h' ! a = OObject qs" using laid_obj by auto
  moreover have "laid_list h' lo a (map snd qs) (map snd ps)"
    using laid_obj.prems laid_obj.hyps by (intro laid_obj.IH) auto
  ultimately show ?case using laid_obj by (auto intro: laid_laid_list.intros)
next
  case (laid_cons h lo mid v t hi vs ts)
  have le: "lo \<le> mid" "mid \<le> hi"
    using laid_cons.hyps by (auto dest: laid_le laid_list_le)
  have "laid h' lo mid v t"
    using laid_cons.prems le by (intro laid_cons.IH) auto
  moreover have "laid_list h' mid hi vs ts"
    using laid_cons.prems le by (intro laid_cons.IH) auto
  ultimately show ?case by (auto intro: laid_laid_list.intros)
qed (auto intro: laid_laid_list.intros)

lemma laid_list_append:
  "laid_list h lo mid vs ts \<Longrightarrow> laid_list h mid hi ws us \<Longrightarrow> laid_list h lo hi (vs @ ws) (ts @ us)"
proof (induction vs arbitrary: lo ts)
  case Nil
  then show ?case
    by (auto elim!: laid_list.cases[of h lo mid "[]"] intro: laid_list_widen)
next
  case (Cons v vs)
  from Cons.prems(1) obtain t ts' m where
    ts: "ts = t # ts'" and a: "laid h lo m v t" and b: "laid_list h m mid vs ts'"
    by (auto elim: laid_list.cases)
  from Cons.IH[OF b Cons.prems(2)] a ts show ?case
    by (auto intro: laid_laid_list.intros)
qed

lemma changes_within_refl: "changes_within h h lo hi"
  by (simp add: changes_within_def)

lemma changes_within_trans:
  "changes_within h h1 lo1 hi1 \<Longrightarrow> changes_within h1 h2 lo2 hi2 \<Longrightarrow>
     lo \<le> lo1 \<Longrightarrow> hi1 \<le> hi \<Longrightarrow> lo \<le> lo2 \<Longrightarrow> hi2 \<le> hi \<Longrightarrow> changes_within h h2 lo hi"
  unfolding changes_within_def
  by (smt (verit, best) le_trans less_le_trans not_le)

lemma laid_extend: "laid h lo hi v t \<Longrightarrow> laid (h @ ext) lo hi v t"
  by (erule laid_stable) (auto simp: nth_append)

lemma laid_list_extend: "laid_list h lo hi vs ts \<Longrightarrow> laid_list (h @ ext) lo hi vs ts"
  by (erule laid_list_stable) (auto simp: nth_append)

lemma alloc_laid:
  "alloc t h = (v, h1) \<Longrightarrow> (\<exists>ext. h1 = h @ ext) \<and> laid h1 (length h) (length h1) v t"
  "alloc_props ps h = (qs, h1) \<Longrightarrow> (\<exists>ext. h1 = h @ ext) \<and> map fst qs = map fst ps
      \<and> laid_list h1 (length h) (length h1) (map snd qs) (map snd ps)"
  "alloc_elems ts h = (vs, h1) \<Longrightarrow> (\<exists>ext. h1 = h @ ext) \<and> laid_list h1 (length h) (length h1) vs ts"
proof (induction t h and ps h and ts h arbitrary: v h1 and qs h1 and vs h1 rule: alloc_alloc_props_alloc_elems.induct)
  case (5 t h)
  then show ?case by (auto intro!: laid_laid_list.intros)
next
  case (6 ts h)
  obtain vs h0 where e: "alloc_elems ts h = (vs, h0)" by (cases "alloc_elems ts h")
  from 6(1)[OF e] obtain ext where ext: "h0 = h @ ext"
    and l: "laid_list h0 (length h) (length h0) vs ts" by auto
  from 6(2) e have r: "v = VRef (length h0)" "h1 = h0 @ [OArray vs]" by auto
  have "laid_list h1 (length h) (length h0) vs ts" unfolding r by (rule laid_list_extend) (rule l)
  then have "laid h1 (length h) (length h1) (VRef (length h0)) (JArr ts)"
    by (rule laid_arr) (simp_all add: r)
  with r ext show ?case by auto
next
  case (7 ps h)
  obtain qs h0 where e: "alloc_props ps h = (qs, h0)" by (cases "alloc_props ps h")
  from 7(1)[OF e] obtain ext where ext: "h0 = h @ ext" and k: "map fst qs = map fst ps"
    and l: "laid_list h0 (length h) (length h0) (map snd qs) (map snd ps)" by auto
  from 7(2) e have r: "v = VRef (length h0)" "h1 = h0 @ [OObject qs]" by auto
  have "laid_list h1 (length h) (length h0) (map snd qs) (map snd ps)"
    unfolding r by (rule laid_list_extend) (rule l)
  then have "laid h1 (length h) (length h1) (VRef (length h0)) (JObj ps)"
    using k by (rule laid_obj) (simp_all add: r)
  with r ext show ?case by auto
next
  case (9 k t ps h)
  obtain v h0 where a: "alloc t h = (v, h0)" by (cases "alloc t h")
  obtain qs' h2 where b: "alloc_props ps h0 = (qs', h2)" by (cases "alloc_props ps h0")
  from 9(1)[OF a] obtain e1 where e1: "h0 = h @ e1" and l1: "laid h0 (length h) (length h0) v t"
    by auto
  from 9(2)[OF a[symmetric] b] obtain e2 where e2: "h2 = h0 @ e2"
    and k2: "map fst qs' = map fst ps"
    and l2: "laid_list h2 (length h0) (length h2) (map snd qs') (map snd ps)" by auto
  from 9(3) a b have r: "qs = (k, v) # qs'" "h1 = h2" by auto
  have "laid h2 (length h) (length h0) v t" unfolding e2 by (rule laid_extend) (rule l1)
  from this l2 have "laid_list h2 (length h) (length h2) (v # map snd qs') (t # map snd ps)"
    by (rule laid_cons)
  with r k2 e1 e2 show ?case by auto
next
  case (11 t ts h)
  obtain v h0 where a: "alloc t h = (v, h0)" by (cases "alloc t h")
  obtain vs' h2 where b: "alloc_elems ts h0 = (vs', h2)" by (cases "alloc_elems ts h0")
  from 11(1)[OF a] obtain e1 where e1: "h0 = h @ e1" and l1: "laid h0 (length h) (length h0) v t"
    by auto
  from 11(2)[OF a[symmetric] b] obtain e2 where e2: "h2 = h0 @ e2"
    and l2: "laid_list h2 (length h0) (length h2) vs' ts" by auto
  from 11(3) a b have r: "vs = v # vs'" "h1 = h2" by auto
  have "laid h2 (length h) (length h0) v t" unfolding e2 by (rule laid_extend) (rule l1)
  from this l2 have "laid_list h2 (length h) (length h2) (v # vs') (t # ts)"
    by (rule laid_cons)
  with r e1 e2 show ?case by auto
qed (auto intro!: laid_laid_list.intros)

lemma pos_fuel: "(n::nat) < f \<Longrightarrow> \<exists>f'. f = Suc f'"
  by (cases f) auto

lemma tree_of_laid:
  "laid h lo hi v t \<Longrightarrow> hi - lo < f \<Longrightarrow> tree_of f h v = Some t"
  and trees_of_laid:
  "laid_list h lo hi vs ts \<Longrightarrow> hi - lo < f \<Longrightarrow> trees_of f h vs = Some ts"
proof (induction arbitrary: f and f rule: laid_laid_list.inducts)
  case (laid_date lo hi b h d)
  from laid_date.prems obtain f' where "f = Suc f'" by (cases f) auto
  with laid_date.hyps show ?case by simp
next
  case (laid_arr h lo a vs ts hi)
  from laid_arr.prems obtain f' where f: "f = Suc f'" by (cases f) auto
  have "lo \<le> a" using laid_arr.hyps(1) by (rule laid_list_le)
  with laid_arr.prems laid_arr.hyps f have "a - lo < f'" by auto
  from laid_arr.IH[OF this] laid_arr.hyps f show ?case by simp
next
  case (laid_obj h lo a qs ps hi)
  from laid_obj.prems obtain f' where f: "f = Suc f'" by (cases f) auto
  have "lo \<le> a" using laid_obj.hyps(1) by (rule laid_list_le)
  with laid_obj.prems laid_obj.hyps f have "a - lo < f'" by auto
  from laid_obj.IH[OF this] laid_obj.hyps f show ?case
    by (simp add: zip_map_fst_snd)
next
  case (laid_cons h lo mid v t hi vs ts)
  have le: "lo \<le> mid" "mid \<le> hi"
    using laid_cons.hyps by (auto dest: laid_le laid_list_le)
  with laid_cons.prems have "mid - lo < f" "hi - mid < f" by auto
  with laid_cons.IH show ?case by simp
qed (auto dest!: pos_fuel)

lemma tree_of_stable:
  "tree_of f h v = Some t \<Longrightarrow> f \<le> f' \<Longrightarrow> tree_of f' (h @ ext) v = Some t"
  "trees_of f h vs = Some ts \<Longrightarrow> f \<le> f' \<Longrightarrow> trees_of f' (h @ ext) vs = Some ts"
proof (induction f h v and f h vs arbitrary: t f' and ts f' rule: tree_of_trees_of.induct)
  case (1 h v)
  then show ?case by simp
next
  case (2 fuel h v)
  from 2(4) obtain g where g: "f' = Suc g" "fuel \<le> g" by (cases f') auto
  show ?case
  proof (cases v)
    case (VRef a)
    show ?thesis
    proof (cases "a < length h")
      case True
      show ?thesis
      proof (cases "h ! a")
        case (OObject ps)
        with 2(3) VRef True obtain ts where ts: "trees_of fuel h (map snd ps) = Some ts"
          "t = JObj (zip (map fst ps) ts)" by auto
        from 2(1)[OF VRef True OObject ts(1) g(2)] ts(2) VRef True OObject g show ?thesis
          by (simp add: nth_append)
      next
        case (OArray xs)
        with 2(3) VRef True obtain ts where ts: "trees_of fuel h xs = Some ts" "t = JArr ts"
          by auto
        from 2(2)[OF VRef True OArray ts(1) g(2)] ts(2) VRef True OArray g show ?thesis
          by (simp add: nth_append)
      next
        case (ODate d)
        with 2(3) VRef True g show ?thesis by (simp add: nth_append)
      qed
    next
      case False
      with 2(3) VRef show ?thesis by simp
    qed
  qed (use 2(3) g in auto)
next
  case (3 fuel h)
  then show ?case by simp
next
  case (4 fuel h v vs)
  from 4(3) obtain t ts' where t: "tree_of fuel h v = Some t" "trees_of fuel h vs = Some ts'"
    "ts = t # ts'" by (auto split: option.splits)
  from 4(1)[OF t(1) 4(4)] 4(2)[OF t(1) t(2) 4(4)] t(3) show ?case by simp
qed

lemma laid_leafE:
  assumes "laid h lo hi v t"
  shows "(\<exists>a. v = VRef a \<and> a < length h \<and>
            ((\<exists>d. t = JDate d \<and> h ! a = ODate d)
             \<or> (\<exists>vs ts. t = JArr ts \<and> h ! a = OArray vs \<and> laid_list h lo a vs ts \<and> a < hi)
             \<or> (\<exists>qs ps. t = JObj ps \<and> h ! a = OObject qs \<and> map fst qs = map fst ps
                    \<and> laid_list h lo a (map snd qs) (map snd ps) \<and> a < hi)))
       \<or> (v = VNull \<and> t = JNull) \<or> (\<exists>b. v = VBool b \<and> t = JBool b)
       \<or> (\<exists>n. v = VNum n \<and> t = JNum n) \<or> (\<exists>s. v = VStr s \<and> t = JStr s)"
  using assms by (cases rule: laid.cases) auto

lemma map_of_keys_None:
  "map fst qs = map fst ps \<Longrightarrow> (map_of qs k = None) = (map_of ps k = None)"
  by (metis map_of_eq_None_iff set_map)

lemma map_of_laid:
  "laid_list h lo hi (map snd qs) (map snd ps) \<Longrightarrow> map fst qs = map fst ps \<Longrightarrow>
     map_of qs k = Some v \<Longrightarrow> \<exists>t lo' hi'. map_of ps k = Some t \<and> laid h lo' hi' v t"
proof (induction qs arbitrary: ps lo)
  case Nil
  then show ?case by simp
next
  case (Cons q qs)
  from Cons.prems(2) obtain p ps' where ps: "ps = p # ps'" "fst q = fst p" "map fst qs = map fst ps'"
    by (cases ps) auto
  from Cons.prems(1) ps obtain mid where l: "laid h lo mid (snd q) (snd p)"
    "laid_list h mid hi (map snd qs) (map snd ps')"
    by (auto elim: laid_list.cases)
  show ?case
  proof (cases "k = fst q")
    case True
    with Cons.prems(3) have "v = snd q" by (cases q) auto
    with True ps l(1) show ?thesis by (cases p) auto
  next
    case False
    with Cons.prems(3) have "map_of qs k = Some v" by (cases q) auto
    from Cons.IH[OF l(2) ps(3) this] False ps show ?thesis by (cases p) auto
  qed
qed

lemma laid_VStr: "laid h lo hi (VStr s) t \<Longrightarrow> t = JStr s"
  by (auto dest: laid_leafE)

lemma laid_JStr: "laid h lo hi v (JStr s) \<Longrightarrow> v = VStr s"
  by (auto dest: laid_leafE)

lemma date_wrapper_heap_laid:
  assumes "laid h lo hi (VRef b) t"
  shows "date_wrapper_heap h b = date_wrapper t"
proof -
  from laid_leafE[OF assms] consider
    (date) d where "t = JDate d" "h ! b = ODate d"
    | (arr) vs ts where "t = JArr ts" "h ! b = OArray vs"
    | (obj) qs ps where "t = JObj ps" "h ! b = OObject qs" "map fst qs = map fst ps"
        "laid_list h lo b (map snd qs) (map snd ps)"
    by auto
  then show ?thesis
  proof cases
    case date
    then show ?thesis by (simp add: date_wrapper_heap_def date_wrapper_def)
  next
    case arr
    then show ?thesis by (simp add: date_wrapper_heap_def date_wrapper_def)
  next
    case obj
    show ?thesis
    proof (cases "map_of qs ''$date''")
      case None
      with map_of_keys_None[OF obj(3), of "''$date''"] obj show ?thesis
        by (simp add: date_wrapper_heap_def date_wrapper_def)
    next
      case (Some v)
      from map_of_laid[OF obj(4,3) Some] obtain t' lo' hi' where
        t': "map_of ps ''$date'' = Some t'" "laid h lo' hi' v t'" by auto
      show ?thesis
      proof (cases "\<exists>s. v = VStr s")
        case True
        then obtain s where "v = VStr s" by auto
        with t' laid_VStr[of h lo' hi' s t'] Some obj show ?thesis
          by (simp add: date_wrapper_heap_def date_wrapper_def)
      next
        case False
        then have ns: "\<forall>s. t' \<noteq> JStr s" using t'(2) laid_JStr by blast
        from False have "date_wrapper_heap h b = None"
          using Some obj by (cases v) (simp_all add: date_wrapper_heap_def)
        moreover from ns have "date_wrapper t = None"
          using t' obj by (cases t') (auto simp: date_wrapper_def)
        ultimately show ?thesis by simp
      qed
    qed
  qed
qed

lemma set_slot_with_slots:
  "i < length (slots obj) \<Longrightarrow> set_slot obj i v = with_slots obj ((slots obj)[i := v])"
proof (cases obj)
  case (OObject ps)
  assume "i < length (slots obj)"
  with OObject have i: "i < length ps" by simp
  have "ps[i := (fst (ps ! i), v)] = zip (map fst ps) ((map snd ps)[i := v])"
    using i by (auto simp: list_eq_iff_nth_eq nth_list_update)
  with OObject show ?thesis by simp
qed simp_all

lemma slots_with_slots:
  "length vs = length (slots obj) \<Longrightarrow> slots (with_slots obj vs) = vs"
  by (cases obj) simp_all

lemma with_slots_twice:
  "length vs = length (slots obj) \<Longrightarrow> with_slots (with_slots obj vs) vs' = with_slots obj vs'"
  by (cases obj) simp_all

lemma with_slots_same: "with_slots obj (slots obj) = obj"
  by (cases obj) (simp_all add: zip_map_fst_snd)

lemma guard_heap_with_slots:
  "length vs = length (slots obj) \<Longrightarrow> guard_heap md (with_slots obj vs) = guard_heap md obj"
proof (cases obj)
  case (OObject ps)
  assume "length vs = length (slots obj)"
  with OObject have "map fst (zip (map fst ps) vs) = map fst ps" by simp
  from map_of_keys_None[OF this, of "''hasOwnProperty''"] OObject show ?thesis
    by (auto simp: guard_heap_def split: module.splits option.splits)
qed (simp_all add: guard_heap_def split: module.splits)

lemma guard_heap_QueryGenerator: "guard_heap QueryGenerator obj = None"
  by (simp add: guard_heap_def)

lemma guard_heap_cases: "guard_heap md obj = None \<or> guard_heap md obj = Some shadow_error"
  by (auto simp: guard_heap_def shadow_error_def split: module.splits hobj.splits option.splits)

lemma changes_within_widen:
  "changes_within h h' lo hi \<Longrightarrow> lo' \<le> lo \<Longrightarrow> hi \<le> hi' \<Longrightarrow> changes_within h h' lo' hi'"
  unfolding changes_within_def by auto

lemma laid_list_kept:
  "laid_list h lo hi vs ts \<Longrightarrow> changes_within h h' lo' hi' \<Longrightarrow> hi \<le> lo' \<or> hi' \<le> lo \<Longrightarrow>
     laid_list h' lo hi vs ts"
  by (erule laid_list_stable) (auto simp: changes_within_def)

lemma assign_new_Date_props:
  assumes "a < length h" "i < length (slots (h ! a))"
  shows "length (assign_new_Date lg a i s h) = Suc (length h)"
    and "assign_new_Date lg a i s h ! a = with_slots (h ! a) ((slots (h ! a))[i := VRef (length h)])"
    and "assign_new_Date lg a i s h ! length h = ODate (time_value lg s)"
    and "changes_within h (assign_new_Date lg a i s h) a (Suc a)"
proof -
  show "length (assign_new_Date lg a i s h) = Suc (length h)"
    by (simp add: assign_new_Date_def)
  show "assign_new_Date lg a i s h ! a = with_slots (h ! a) ((slots (h ! a))[i := VRef (length h)])"
    using assms by (simp add: assign_new_Date_def nth_append set_slot_with_slots)
  show "assign_new_Date lg a i s h ! length h = ODate (time_value lg s)"
    by (simp add: assign_new_Date_def nth_append)
  have "\<And>d. h ! a = ODate d \<Longrightarrow> set_slot (h ! a) i (VRef (length h)) = ODate d"
    by simp
  then show "changes_within h (assign_new_Date lg a i s h) a (Suc a)"
    using assms(1)
    by (auto simp: changes_within_def assign_new_Date_def nth_append nth_list_update)
qed

lemma unwrapped_tree:
  assumes "date_wrapper t = None" and "\<not> (\<exists>s. t = JStr s)"
  shows "trips_value t = trips t" and "rewrite_value lg t = rewrite lg t"
  using assms by (cases t; simp add: trips_def rewrite_def)+

lemma for_in_heap_refines:
  fixes f md lg a
  assumes IH: "\<And>h lo hi v t. laid h lo hi v t \<Longrightarrow> hi \<le> length h \<Longrightarrow> hi - lo < f \<Longrightarrow>
        \<exists>res h'. convertDateStrings_heap f md lg v h = Some (res, h') \<and> changes_within h h' lo hi \<and>
          res = (if md = MongoService \<and> trips t then Some shadow_error else None) \<and>
          (res = None \<longrightarrow> laid h' lo hi v (rewrite lg t))"
  shows "laid_list h lo m pre tpre \<Longrightarrow> laid_list h m a rest trest \<Longrightarrow> a < length h \<Longrightarrow>
         slots (h ! a) = pre @ rest \<Longrightarrow> a - lo < f \<Longrightarrow>
         \<exists>res h'. for_in_heap f md lg a [length pre ..< length pre + length rest] h = Some (res, h') \<and>
           changes_within h h' lo (Suc a) \<and>
           res = (if (rest \<noteq> [] \<and> guard_heap md (h ! a) \<noteq> None)
                     \<or> (md = MongoService \<and> (\<exists>t \<in> set trest. trips_value t))
                  then Some shadow_error else None) \<and>
           (res = None \<longrightarrow> (\<exists>vs'. h' ! a = with_slots (h ! a) (pre @ vs') \<and> length vs' = length rest \<and>
                 laid_list h' lo a (pre @ vs') (tpre @ map (rewrite_value lg) trest)))"
proof (induction rest arbitrary: h m pre tpre trest)
  case Nil
  from Nil.prems(2) have "trest = []" by (auto elim: laid_list.cases)
  moreover have "laid_list h lo a (pre @ []) (tpre @ [])"
    using laid_list_append[OF Nil.prems(1,2)] \<open>trest = []\<close> by simp
  ultimately show ?case
    using Nil.prems(4) by (auto simp: changes_within_refl with_slots_same)
next
  case (Cons v rest')
  let ?i = "length pre"
  let ?rw = "rewrite_value lg"
  let ?is = "[Suc ?i ..< Suc ?i + length rest']"
  from Cons.prems(2) obtain t trest' m' where trest: "trest = t # trest'"
    and lv: "laid h m m' v t" and lr: "laid_list h m' a rest' trest'"
    by (auto elim: laid_list.cases)
  have le: "lo \<le> m" "m \<le> m'" "m' \<le> a"
    using Cons.prems(1) lv lr by (auto dest: laid_le laid_list_le)
  have idx: "[?i ..< ?i + length (v # rest')] = ?i # ?is"
  proof -
    have "?i < ?i + length (v # rest')" by simp
    from upt_conv_Cons[OF this] show ?thesis by (simp del: upt_Suc)
  qed
  have slot: "slots (h ! a) ! ?i = v" "?i < length (slots (h ! a))"
    using Cons.prems(4) by simp_all
  have len: "length (pre @ v # rest') = length (slots (h ! a))"
    using Cons.prems(4) by simp
  show ?case
  proof (cases "guard_heap md (h ! a)")
    case (Some e)
    with guard_heap_cases[of md "h ! a"] have "e = shadow_error" by simp
    with Some show ?thesis
      unfolding idx by (simp add: changes_within_refl)
  next
    case None
    have continue: "\<exists>res h'. for_in_heap f md lg a ?is h1 = Some (res, h') \<and>
           changes_within h h' lo (Suc a) \<and>
           res = (if (v # rest' \<noteq> [] \<and> guard_heap md (h ! a) \<noteq> None)
                     \<or> (md = MongoService \<and> (\<exists>t \<in> set trest. trips_value t))
                  then Some shadow_error else None) \<and>
           (res = None \<longrightarrow> (\<exists>vs'. h' ! a = with_slots (h ! a) (pre @ vs') \<and> length vs' = length (v # rest') \<and>
                 laid_list h' lo a (pre @ vs') (tpre @ map ?rw trest)))"
      if c: "changes_within h h1 lo (Suc a)" and a1: "a < length h1"
        and o1: "h1 ! a = with_slots (h ! a) (pre @ v' # rest')"
        and p1: "laid_list h1 lo m pre tpre" and v1: "laid h1 m m' v' (?rw t)"
        and r1: "laid_list h1 m' a rest' trest'" and nt: "\<not> (md = MongoService \<and> trips_value t)"
      for h1 v'
    proof -
      have "laid_list h1 m m' [v'] [?rw t]"
        using v1 le by (auto intro: laid_laid_list.intros dest: laid_le)
      with p1 have p2: "laid_list h1 lo m' (pre @ [v']) (tpre @ [?rw t])"
        by (rule laid_list_append)
      have s1: "slots (h1 ! a) = (pre @ [v']) @ rest'"
        using o1 len by (simp add: slots_with_slots)
      have g1: "guard_heap md (h1 ! a) = None"
        using o1 len None by (simp add: guard_heap_with_slots)
      from Cons.IH[OF p2 r1 a1 s1 Cons.prems(5)] obtain res h' where
        run: "for_in_heap f md lg a [length (pre @ [v']) ..< length (pre @ [v']) + length rest'] h1 = Some (res, h')"
        and ch: "changes_within h1 h' lo (Suc a)"
        and res: "res = (if (rest' \<noteq> [] \<and> guard_heap md (h1 ! a) \<noteq> None)
                     \<or> (md = MongoService \<and> (\<exists>t \<in> set trest'. trips_value t))
                  then Some shadow_error else None)"
        and fin: "res = None \<longrightarrow> (\<exists>vs'. h' ! a = with_slots (h1 ! a) ((pre @ [v']) @ vs') \<and> length vs' = length rest' \<and>
                 laid_list h' lo a ((pre @ [v']) @ vs') ((tpre @ [?rw t]) @ map ?rw trest'))"
        by (elim exE conjE) (rule that, assumption+)
      have ch': "changes_within h h' lo (Suc a)"
        using changes_within_trans[OF c ch] by simp
      have res': "res = (if (v # rest' \<noteq> [] \<and> guard_heap md (h ! a) \<noteq> None)
                     \<or> (md = MongoService \<and> (\<exists>t \<in> set trest. trips_value t))
                  then Some shadow_error else None)"
        using res g1 None nt trest by auto
      have fin': "\<exists>vs'. h' ! a = with_slots (h ! a) (pre @ vs') \<and> length vs' = length (v # rest') \<and>
                 laid_list h' lo a (pre @ vs') (tpre @ map ?rw trest)" if "res = None"
      proof -
        from fin that obtain vs'' where vs: "h' ! a = with_slots (h1 ! a) ((pre @ [v']) @ vs'')"
          "length vs'' = length rest'"
          "laid_list h' lo a ((pre @ [v']) @ vs'') ((tpre @ [?rw t]) @ map ?rw trest')"
          by blast
        have "h' ! a = with_slots (h ! a) (pre @ (v' # vs''))"
          using vs(1) o1 len by (simp add: with_slots_twice)
        with vs(2,3) trest show ?thesis
          by (intro exI[of _ "v' # vs''"]) simp
      qed
      have run': "for_in_heap f md lg a ?is h1 = Some (res, h')"
        using run by simp
      have fin'': "res = None \<longrightarrow> (\<exists>vs'. h' ! a = with_slots (h ! a) (pre @ vs') \<and> length vs' = length (v # rest') \<and>
                 laid_list h' lo a (pre @ vs') (tpre @ map ?rw trest))"
        by (rule impI) (rule fin')
      show ?thesis
        by (rule exI[of _ res], rule exI[of _ h']) (intro conjI run' ch' res' fin'')
    qed
    have same: "h ! a = with_slots (h ! a) (pre @ v # rest')"
      using Cons.prems(4) with_slots_same[of "h ! a"] by simp
    have keep: ?thesis if "for_in_heap f md lg a (?i # ?is) h
         = for_in_heap f md lg a ?is h"
        and "?rw t = t" and "\<not> (md = MongoService \<and> trips_value t)"
    proof -
      from continue[OF changes_within_refl Cons.prems(3) same Cons.prems(1) _ lr that(3)] lv that(2)
      show ?thesis unfolding idx that(1) by simp
    qed
    have assign: ?thesis if "for_in_heap f md lg a (?i # ?is) h
         = for_in_heap f md lg a ?is (assign_new_Date lg a ?i s h)"
        and "?rw t = JDate (time_value lg s)" and "\<not> (md = MongoService \<and> trips_value t)" for s
    proof -
      let ?h1 = "assign_new_Date lg a ?i s h"
      note ap = assign_new_Date_props[OF Cons.prems(3) slot(2), of lg s]
      have c: "changes_within h ?h1 lo (Suc a)"
        using ap(4) le by (auto intro: changes_within_widen)
      have a1: "a < length ?h1" using ap(1) Cons.prems(3) by simp
      have o1: "?h1 ! a = with_slots (h ! a) (pre @ VRef (length h) # rest')"
        using ap(2) Cons.prems(4) by simp
      have p1: "laid_list ?h1 lo m pre tpre"
        using Cons.prems(1) ap(4) le by (auto intro: laid_list_kept)
      have r1: "laid_list ?h1 m' a rest' trest'"
        using lr ap(4) by (auto intro: laid_list_kept)
      have v1: "laid ?h1 m m' (VRef (length h)) (?rw t)"
        unfolding that(2) using le ap(1,3) by (auto intro: laid_date)
      from continue[OF c a1 o1 p1 v1 r1 that(3)]
      show ?thesis unfolding idx that(1) by simp
    qed
    from laid_leafE[OF lv] consider
      (ref) b where "v = VRef b" "b < length h"
      | (null) "v = VNull" "t = JNull" | (bool) x where "v = VBool x" "t = JBool x"
      | (num) n where "v = VNum n" "t = JNum n" | (str) s where "v = VStr s" "t = JStr s"
      by blast
    then show ?thesis
    proof cases
      case null
      with None slot show ?thesis by (intro keep) simp_all
    next
      case bool
      with None slot show ?thesis by (intro keep) simp_all
    next
      case num
      with None slot show ?thesis by (intro keep) simp_all
    next
      case str
      show ?thesis
      proof (cases "isoDateRegex_test s")
        case True
        with str None slot show ?thesis
          by (intro assign[of s]) (simp_all add: new_Date_def)
      next
        case False
        with str None slot show ?thesis by (intro keep) simp_all
      qed
    next
      case ref
      have w: "date_wrapper_heap h b = date_wrapper t"
        using lv ref by (simp add: date_wrapper_heap_laid)
      have nstr: "\<not> (\<exists>s. t = JStr s)"
        using lv ref by (auto dest: laid_JStr)
      show ?thesis
      proof (cases "date_wrapper t")
        case (Some s)
        then have "?rw t = JDate (time_value lg s)" "\<not> trips_value t"
          by (cases t; simp add: new_Date_def date_wrapper_def)+
        with Some w ref None slot show ?thesis
          by (intro assign[of s]) simp_all
      next
        case nw: None
        have "m' \<le> length h" "m' - m < f"
          using le Cons.prems(3,5) by auto
        from IH[OF lv this] ref obtain res1 h1 where
          run1: "convertDateStrings_heap f md lg (VRef b) h = Some (res1, h1)"
          and c1: "changes_within h h1 m m'"
          and res1: "res1 = (if md = MongoService \<and> trips t then Some shadow_error else None)"
          and l1: "res1 = None \<longrightarrow> laid h1 m m' v (rewrite lg t)"
          by auto
        note un = unwrapped_tree(1)[OF nw nstr] unwrapped_tree(2)[OF nw nstr, of lg]
        show ?thesis
        proof (cases res1)
          case (Some e)
          with res1 have e: "e = shadow_error" "md = MongoService" "trips_value t"
            by (auto simp: un split: if_splits)
          have "for_in_heap f md lg a [?i ..< ?i + length (v # rest')] h = Some (Some shadow_error, h1)"
            unfolding idx using Some e run1 w nw ref None slot by simp
          moreover have "changes_within h h1 lo (Suc a)"
            using c1 le by (auto intro: changes_within_widen)
          ultimately show ?thesis using e trest by auto
        next
          case rn: None
          with res1 have nt: "\<not> (md = MongoService \<and> trips_value t)"
            by (auto simp: un split: if_splits)
          have step: "for_in_heap f md lg a (?i # ?is) h
             = for_in_heap f md lg a ?is h1"
            using rn run1 w nw ref None slot by simp
          have c: "changes_within h h1 lo (Suc a)"
            using c1 le by (auto intro: changes_within_widen)
          have a1: "a < length h1" using c1 Cons.prems(3) by (simp add: changes_within_def)
          have "h1 ! a = h ! a"
            using c1 le Cons.prems(3) by (simp add: changes_within_def)
          with same have o1: "h1 ! a = with_slots (h ! a) (pre @ v # rest')" by simp
          have p1: "laid_list h1 lo m pre tpre"
            using Cons.prems(1) c1 by (auto intro: laid_list_kept)
          have r1: "laid_list h1 m' a rest' trest'"
            using lr c1 by (auto intro: laid_list_kept)
          have v1: "laid h1 m m' v (?rw t)"
            using l1 rn un by simp
          from continue[OF c a1 o1 p1 v1 r1 nt]
          show ?thesis unfolding idx step by simp
        qed
      qed
    qed
  qed
qed

lemma bex_snd: "(\<exists>t \<in> set (map snd ps). P t) = (\<exists>(k, v) \<in> set ps. P v)"
  by (induction ps) auto

lemma keys_rewritten: "map fst (map (\<lambda>(k, v). (k, f v)) ps) = map fst ps"
  by (induction ps) auto

lemma values_rewritten: "map snd (map (\<lambda>(k, v). (k, f v)) ps) = map f (map snd ps)"
  by (induction ps) auto

lemma convertDateStrings_heap_refines:
  "laid h lo hi v t \<Longrightarrow> hi \<le> length h \<Longrightarrow> hi - lo < f \<Longrightarrow>
     \<exists>res h'. convertDateStrings_heap f md lg v h = Some (res, h') \<and> changes_within h h' lo hi \<and>
        res = (if md = MongoService \<and> trips t then Some shadow_error else None) \<and>
        (res = None \<longrightarrow> laid h' lo hi v (rewrite lg t))"
proof (induction f arbitrary: h lo hi v t)
  case 0
  then show ?case by simp
next
  case (Suc f)
  have nil: "laid_list h lo lo [] []" by (rule laid_nil) simp
  have loop: "\<exists>res h'. for_in_heap f md lg a [0 ..< length rest] h = Some (res, h') \<and>
           changes_within h h' lo (Suc a) \<and>
           res = (if (rest \<noteq> [] \<and> guard_heap md (h ! a) \<noteq> None)
                     \<or> (md = MongoService \<and> (\<exists>t \<in> set trest. trips_value t))
                  then Some shadow_error else None) \<and>
           (res = None \<longrightarrow> (\<exists>vs'. h' ! a = with_slots (h ! a) vs' \<and> length vs' = length rest \<and>
                 laid_list h' lo a vs' (map (rewrite_value lg) trest)))"
    if "laid_list h lo a rest trest" "a < length h" "slots (h ! a) = rest" "a - lo < f"
    for a rest trest
  proof -
    have s: "slots (h ! a) = [] @ rest" using that(3) by simp
    have "\<exists>res h'. for_in_heap f md lg a [length ([]::hval list) ..< length ([]::hval list) + length rest] h = Some (res, h') \<and>
           changes_within h h' lo (Suc a) \<and>
           res = (if (rest \<noteq> [] \<and> guard_heap md (h ! a) \<noteq> None)
                     \<or> (md = MongoService \<and> (\<exists>t \<in> set trest. trips_value t))
                  then Some shadow_error else None) \<and>
           (res = None \<longrightarrow> (\<exists>vs'. h' ! a = with_slots (h ! a) ([] @ vs') \<and> length vs' = length rest \<and>
                 laid_list h' lo a ([] @ vs') ([] @ map (rewrite_value lg) trest)))"
      by (rule for_in_heap_refines[OF _ nil that(1,2) s that(4)]) (rule Suc.IH; assumption)
    then show ?thesis by simp
  qed
  from laid_leafE[OF Suc.prems(1)] consider
    (date) a d where "v = VRef a" "a < length h" "t = JDate d" "h ! a = ODate d"
    | (arr) a vs ts where "v = VRef a" "a < length h" "t = JArr ts" "h ! a = OArray vs"
        "laid_list h lo a vs ts" "a < hi"
    | (obj) a qs ps where "v = VRef a" "a < length h" "t = JObj ps" "h ! a = OObject qs"
        "map fst qs = map fst ps" "laid_list h lo a (map snd qs) (map snd ps)" "a < hi"
    | (prim) "\<forall>a. v \<noteq> VRef a" "rewrite lg t = t" "\<not> trips t"
    by (auto simp: rewrite_def trips_def)
  then show ?case
  proof cases
    case prim
    then have "convertDateStrings_heap (Suc f) md lg v h = Some (None, h)"
      by (cases v) auto
    with prim Suc.prems(1) show ?thesis
      by (simp add: changes_within_refl)
  next
    case date
    then have "convertDateStrings_heap (Suc f) md lg v h = Some (None, h)"
      by simp
    with date Suc.prems(1) show ?thesis
      by (simp add: changes_within_refl rewrite_def trips_def)
  next
    case arr
    have "lo \<le> a" using arr(5) by (rule laid_list_le)
    with arr(6) Suc.prems(3) have fuel: "a - lo < f" by auto
    from loop[OF arr(5) arr(2) _ fuel] arr(4) obtain res h' where
      run: "for_in_heap f md lg a [0 ..< length vs] h = Some (res, h')"
      and ch: "changes_within h h' lo (Suc a)"
      and res: "res = (if (vs \<noteq> [] \<and> guard_heap md (OArray vs) \<noteq> None)
                     \<or> (md = MongoService \<and> (\<exists>t \<in> set ts. trips_value t))
                  then Some shadow_error else None)"
      and fin: "res = None \<longrightarrow> (\<exists>vs'. h' ! a = with_slots (OArray vs) vs' \<and> length vs' = length vs \<and>
                 laid_list h' lo a vs' (map (rewrite_value lg) ts))"
      by auto
    have g: "guard_heap md (OArray vs) = None"
      by (simp add: guard_heap_def split: module.splits)
    have run': "convertDateStrings_heap (Suc f) md lg v h = Some (res, h')"
      using run arr by simp
    have ch': "changes_within h h' lo hi"
      using ch arr(6) by (auto intro: changes_within_widen)
    have res': "res = (if md = MongoService \<and> trips t then Some shadow_error else None)"
      using res g arr(3) by (simp add: trips_def)
    have fin': "res = None \<longrightarrow> laid h' lo hi v (rewrite lg t)"
    proof
      assume "res = None"
      with fin obtain vs' where vs': "h' ! a = OArray vs'"
        "laid_list h' lo a vs' (map (rewrite_value lg) ts)" by auto
      have "a < length h'" using ch arr(2) by (simp add: changes_within_def)
      with vs' arr(6) have "laid h' lo hi (VRef a) (JArr (map (rewrite_value lg) ts))"
        by (auto intro: laid_arr)
      with arr show "laid h' lo hi v (rewrite lg t)" by (simp add: rewrite_def)
    qed
    show ?thesis
      by (rule exI[of _ res], rule exI[of _ h']) (intro conjI run' ch' res' fin')
  next
    case obj
    have "lo \<le> a" using obj(6) by (rule laid_list_le)
    with obj(7) Suc.prems(3) have fuel: "a - lo < f" by auto
    from loop[OF obj(6) obj(2) _ fuel] obj(4) obtain res h' where
      run: "for_in_heap f md lg a [0 ..< length qs] h = Some (res, h')"
      and ch: "changes_within h h' lo (Suc a)"
      and res: "res = (if (map snd qs \<noteq> [] \<and> guard_heap md (OObject qs) \<noteq> None)
                     \<or> (md = MongoService \<and> (\<exists>t \<in> set (map snd ps). trips_value t))
                  then Some shadow_error else None)"
      and fin: "res = None \<longrightarrow> (\<exists>vs'. h' ! a = with_slots (OObject qs) vs' \<and> length vs' = length (map snd qs) \<and>
                 laid_list h' lo a vs' (map (rewrite_value lg) (map snd ps)))"
      by auto
    have g: "(map snd qs \<noteq> [] \<and> guard_heap md (OObject qs) \<noteq> None)
         = (md = MongoService \<and> map_of ps ''hasOwnProperty'' \<noteq> None)"
      using map_of_keys_None[OF obj(5), of "''hasOwnProperty''"]
      by (cases qs) (auto simp: guard_heap_def split: module.splits option.splits)
    have run': "convertDateStrings_heap (Suc f) md lg v h = Some (res, h')"
      using run obj by simp
    have ch': "changes_within h h' lo hi"
      using ch obj(7) by (auto intro: changes_within_widen)
    have res': "res = (if md = MongoService \<and> trips t then Some shadow_error else None)"
      unfolding res g bex_snd using obj(3) by (auto simp: trips_def)
    have fin': "res = None \<longrightarrow> laid h' lo hi v (rewrite lg t)"
    proof
      assume "res = None"
      with fin obtain vs' where vs': "h' ! a = OObject (zip (map fst qs) vs')"
        "length vs' = length qs"
        "laid_list h' lo a vs' (map (rewrite_value lg) (map snd ps))" by auto
      let ?qs' = "zip (map fst qs) vs'"
      let ?ps' = "map (\<lambda>(k, v). (k, rewrite_value lg v)) ps"
      have a: "a < length h'" using ch obj(2) by (simp add: changes_within_def)
      have "map fst ?qs' = map fst qs" using vs'(2) by simp
      also have "\<dots> = map fst ps" by (rule obj(5))
      also have "\<dots> = map fst ?ps'" by (rule keys_rewritten[symmetric])
      finally have k: "map fst ?qs' = map fst ?ps'" .
      have s: "map snd ?qs' = vs'" "map snd ?ps' = map (rewrite_value lg) (map snd ps)"
        using vs'(2) by simp (rule values_rewritten)
      have l': "laid_list h' lo a (map snd ?qs') (map snd ?ps')"
        using vs'(3) by (simp only: s)
      have "laid h' lo hi (VRef a) (JObj ?ps')"
        using l' k obj(7) a vs'(1) by (rule laid_obj)
      with obj show "laid h' lo hi v (rewrite lg t)" by (simp add: rewrite_def)
    qed
    show ?thesis
      by (rule exI[of _ res], rule exI[of _ h']) (intro conjI run' ch' res' fin')
  qed
qed

lemma changes_within_prefix:
  "changes_within h h' lo hi \<Longrightarrow> n \<le> lo \<Longrightarrow> n \<le> length h \<Longrightarrow> take n h' = take n h"
  by (auto simp: changes_within_def list_eq_iff_nth_eq)

lemma processedQuery_heap_circular:
  "tree_of (Suc (length h)) h cur = None \<Longrightarrow>
     processedQuery_heap legacy cur h
       = Some (Inl (TypeError ''Converting circular structure to JSON''), h)"
  by (simp add: processedQuery_heap_def)

subsection \<open>New cells never lead to old cells\<close>

lemma grows_refl: "closed_above n h \<Longrightarrow> grows n h h"
  by (simp add: grows_def)

lemma grows_trans: "grows n h h1 \<Longrightarrow> grows n h1 h2 \<Longrightarrow> grows n h h2"
  by (auto simp: grows_def)

lemma length_slots_set_slot: "length (slots (set_slot obj i v)) = length (slots obj)"
  by (cases obj) simp_all

lemma set_slots_set_slot: "set (slots (set_slot obj i v)) \<subseteq> insert v (set (slots obj))"
proof (cases obj)
  case (OObject ps)
  have "set (map snd (ps[i := (fst (ps ! i), v)])) \<subseteq> insert v (set (map snd ps))"
    by (auto simp: map_update dest!: subsetD[OF set_update_subset_insert])
  with OObject show ?thesis by simp
next
  case (OArray xs)
  then show ?thesis using set_update_subset_insert[of xs i v] by simp
qed simp

lemma closed_aboveD:
  "closed_above n h \<Longrightarrow> n \<le> a \<Longrightarrow> a < length h \<Longrightarrow> VRef b \<in> set (slots (h ! a)) \<Longrightarrow>
     n \<le> b \<and> b < length h"
  unfolding closed_above_def by blast

lemma closed_aboveI:
  "(\<And>a b. n \<le> a \<Longrightarrow> a < length h \<Longrightarrow> VRef b \<in> set (slots (h ! a)) \<Longrightarrow> n \<le> b \<and> b < length h)
     \<Longrightarrow> closed_above n h"
  unfolding closed_above_def by blast

lemma grows_assign_new_Date:
  assumes "closed_above n h" "n \<le> a" "a < length h"
  shows "grows n h (assign_new_Date lg a i s h)"
proof -
  let ?h1 = "assign_new_Date lg a i s h"
  have len: "length ?h1 = Suc (length h)" by (simp add: assign_new_Date_def)
  have cell_a: "?h1 ! a = set_slot (h ! a) i (VRef (length h))"
    using assms(3) by (simp add: assign_new_Date_def nth_append)
  have cell: "?h1 ! c = h ! c" if "c < length h" "c \<noteq> a" for c
    using that by (simp add: assign_new_Date_def nth_append)
  have new: "?h1 ! length h = ODate (time_value lg s)"
    by (simp add: assign_new_Date_def nth_append)
  have tk: "take n ?h1 = take n h"
  proof -
    have "take n ?h1 = take n (h[a := set_slot (h ! a) i (VRef (length h))])"
      using assms(2,3) by (simp add: assign_new_Date_def)
    also have "\<dots> = take n h" using assms(2) by (rule take_update_cancel)
    finally show ?thesis .
  qed
  have cl: "closed_above n ?h1"
  proof (rule closed_aboveI)
    fix c b assume c: "n \<le> c" "c < length ?h1" and b: "VRef b \<in> set (slots (?h1 ! c))"
    consider (a) "c = a" | (old) "c < length h" "c \<noteq> a" | (new) "c = length h"
      using c(2) len by linarith
    then show "n \<le> b \<and> b < length ?h1"
    proof cases
      case a
      with b cell_a have "VRef b \<in> set (slots (set_slot (h ! a) i (VRef (length h))))" by simp
      with set_slots_set_slot[of "h ! a" i "VRef (length h)"]
      have "b = length h \<or> VRef b \<in> set (slots (h ! a))" by auto
      then show ?thesis
      proof
        assume "b = length h"
        with assms(2,3) len show ?thesis by simp
      next
        assume "VRef b \<in> set (slots (h ! a))"
        from closed_aboveD[OF assms(1,2,3) this] len show ?thesis by simp
      qed
    next
      case old
      with b cell have "VRef b \<in> set (slots (h ! c))" by simp
      from closed_aboveD[OF assms(1) c(1) old(1) this] len show ?thesis by simp
    next
      case new
      with b \<open>?h1 ! length h = ODate (time_value lg s)\<close> show ?thesis by simp
    qed
  qed
  have sh: "length (slots (?h1 ! c)) = length (slots (h ! c))" if "c < length h" for c
  proof (cases "c = a")
    case True
    with cell_a show ?thesis by (simp add: length_slots_set_slot)
  next
    case False
    with cell[OF that] show ?thesis by simp
  qed
  show ?thesis
    unfolding grows_def using len tk cl sh by simp
qed

lemma traversal_grows:
  "closed_above n h \<Longrightarrow> (\<And>a. obj = VRef a \<Longrightarrow> n \<le> a) \<Longrightarrow>
     convertDateStrings_heap fuel md lg obj h = Some (res, h') \<Longrightarrow> grows n h h'"
  "closed_above n h \<Longrightarrow> n \<le> a \<Longrightarrow> a < length h \<Longrightarrow> (\<And>i. i \<in> set is \<Longrightarrow> i < length (slots (h ! a))) \<Longrightarrow>
     for_in_heap fuel md lg a is h = Some (res, h') \<Longrightarrow> grows n h h'"
proof (induction fuel md lg obj h and fuel md lg a "is" h arbitrary: res h' and res h'
    rule: convertDateStrings_heap_for_in_heap.induct)
  case (1 md legacy obj h)
  then show ?case by simp
next
  case (2 fuel md legacy obj h)
  show ?case
  proof (cases obj)
    case (VRef a)
    with 2(4) have a: "a < length h"
      and run: "for_in_heap fuel md legacy a [0..<length (slots (h ! a))] h = Some (res, h')"
      by (auto split: if_splits)
    from 2(1)[OF VRef a 2(2) 2(3)[OF VRef] a _ run] show ?thesis by simp
  next
    case VNull
    with 2(4) have "h' = h" by simp
    with 2(2) show ?thesis by (simp add: grows_refl)
  next
    case (VBool x)
    with 2(4) have "h' = h" by simp
    with 2(2) show ?thesis by (simp add: grows_refl)
  next
    case (VNum x)
    with 2(4) have "h' = h" by simp
    with 2(2) show ?thesis by (simp add: grows_refl)
  next
    case (VStr x)
    with 2(4) have "h' = h" by simp
    with 2(2) show ?thesis by (simp add: grows_refl)
  qed
next
  case (3 fuel md legacy a h)
  then show ?case by (simp add: grows_refl)
next
  case (4 fuel md legacy a i rest h)
  note closed = 4(9) and na = 4(10) and ah = 4(11) and idx = 4(12) and run = 4(13)
  have i: "i < length (slots (h ! a))" using idx by simp
  have after: "grows n h h'" if g: "grows n h h1"
      and r: "for_in_heap fuel md legacy a rest h1 = Some (res, h')"
      and ih: "\<And>res h'. closed_above n h1 \<Longrightarrow> n \<le> a \<Longrightarrow> a < length h1 \<Longrightarrow>
            (\<And>i. i \<in> set rest \<Longrightarrow> i < length (slots (h1 ! a))) \<Longrightarrow>
            for_in_heap fuel md legacy a rest h1 = Some (res, h') \<Longrightarrow> grows n h1 h'"
      for h1
  proof -
    from g have c1: "closed_above n h1" by (simp add: grows_def)
    from g ah have a1: "a < length h1" by (simp add: grows_def)
    from g ah have s1: "length (slots (h1 ! a)) = length (slots (h ! a))" by (simp add: grows_def)
    have "grows n h1 h'"
      using ih[OF c1 na a1 _ r] idx s1 by simp
    with g show ?thesis by (rule grows_trans)
  qed
  show ?case
  proof (cases "guard_heap md (h ! a)")
    case (Some e)
    with run closed show ?thesis by (simp add: grows_refl)
  next
    case None
    show ?thesis
    proof (cases "slots (h ! a) ! i")
      case VNull
      with None run have r: "for_in_heap fuel md legacy a rest h = Some (res, h')" by simp
      from after[OF grows_refl[OF closed] r 4(1)[OF None VNull]] show ?thesis .
    next
      case (VBool x)
      with None run have r: "for_in_heap fuel md legacy a rest h = Some (res, h')" by simp
      from after[OF grows_refl[OF closed] r 4(2)[OF None VBool]] show ?thesis .
    next
      case (VNum x)
      with None run have r: "for_in_heap fuel md legacy a rest h = Some (res, h')" by simp
      from after[OF grows_refl[OF closed] r 4(3)[OF None VNum]] show ?thesis .
    next
      case (VStr s)
      show ?thesis
      proof (cases "isoDateRegex_test s")
        case True
        with VStr None run have r: "for_in_heap fuel md legacy a rest (assign_new_Date legacy a i s h) = Some (res, h')"
          by simp
        from after[OF grows_assign_new_Date[OF closed na ah] r 4(4)[OF None VStr True]]
        show ?thesis .
      next
        case False
        with VStr None run have r: "for_in_heap fuel md legacy a rest h = Some (res, h')" by simp
        from after[OF grows_refl[OF closed] r 4(5)[OF None VStr False]] show ?thesis .
      qed
    next
      case (VRef b)
      have "VRef b \<in> set (slots (h ! a))" using VRef i by (metis nth_mem)
      from closed_aboveD[OF closed na ah this] have nb: "n \<le> b" "b < length h" by simp_all
      show ?thesis
      proof (cases "date_wrapper_heap h b")
        case (Some s)
        with VRef None run nb have r: "for_in_heap fuel md legacy a rest (assign_new_Date legacy a i s h) = Some (res, h')"
          by simp
        from after[OF grows_assign_new_Date[OF closed na ah] r 4(8)[OF None VRef nb(2) Some]]
        show ?thesis .
      next
        case nw: None
        show ?thesis
        proof (cases "convertDateStrings_heap fuel md legacy (VRef b) h")
          case None
          with VRef \<open>guard_heap md (h ! a) = None\<close> nw run nb show ?thesis by simp
        next
          case (Some x2)
          obtain r1 h1 where x2: "x2 = (r1, h1)" by (cases x2)
          have g1: "grows n h h1"
            using 4(6)[OF \<open>guard_heap md (h ! a) = None\<close> VRef nb(2) nw closed _ Some[unfolded x2]] nb(1)
            by simp
          show ?thesis
          proof (cases r1)
            case None
            with Some x2 VRef \<open>guard_heap md (h ! a) = None\<close> nw run nb
            have r: "for_in_heap fuel md legacy a rest h1 = Some (res, h')" by simp
            from after[OF g1 r 4(7)[OF \<open>guard_heap md (h ! a) = None\<close> VRef nb(2) nw Some x2[symmetric] None]]
            show ?thesis .
          next
            case (Some e)
            with \<open>convertDateStrings_heap fuel md legacy (VRef b) h = Some x2\<close> x2 VRef
              \<open>guard_heap md (h ! a) = None\<close> nw run nb
            have "h' = h1" by simp
            with g1 show ?thesis by simp
          qed
        qed
      qed
    qed
  qed
qed

lemma closed_above_snoc:
  assumes "closed_above n h" and "\<And>b. VRef b \<in> set (slots obj) \<Longrightarrow> n \<le> b \<and> b < length h"
  shows "closed_above n (h @ [obj])"
proof (rule closed_aboveI)
  fix a b assume a: "n \<le> a" "a < length (h @ [obj])" and b: "VRef b \<in> set (slots ((h @ [obj]) ! a))"
  show "n \<le> b \<and> b < length (h @ [obj])"
  proof (cases "a < length h")
    case True
    with b have "VRef b \<in> set (slots (h ! a))" by (simp add: nth_append)
    from closed_aboveD[OF assms(1) a(1) True this] show ?thesis by simp
  next
    case False
    with a(2) have "a = length h" by simp
    with b have "VRef b \<in> set (slots obj)" by simp
    from assms(2)[OF this] show ?thesis by simp
  qed
qed

lemma alloc_closed:
  "closed_above n h \<Longrightarrow> n \<le> length h \<Longrightarrow> alloc t h = (v, h1) \<Longrightarrow>
     closed_above n h1 \<and> length h \<le> length h1 \<and> (\<forall>b. v = VRef b \<longrightarrow> n \<le> b \<and> b < length h1)"
  "closed_above n h \<Longrightarrow> n \<le> length h \<Longrightarrow> alloc_props ps h = (qs, h1) \<Longrightarrow>
     closed_above n h1 \<and> length h \<le> length h1 \<and> (\<forall>b. VRef b \<in> set (map snd qs) \<longrightarrow> n \<le> b \<and> b < length h1)"
  "closed_above n h \<Longrightarrow> n \<le> length h \<Longrightarrow> alloc_elems ts h = (vs, h1) \<Longrightarrow>
     closed_above n h1 \<and> length h \<le> length h1 \<and> (\<forall>b. VRef b \<in> set vs \<longrightarrow> n \<le> b \<and> b < length h1)"
proof (induction t h and ps h and ts h arbitrary: v h1 and qs h1 and vs h1
    rule: alloc_alloc_props_alloc_elems.induct)
  case (5 t h)
  from 5(3) have r: "v = VRef (length h)" "h1 = h @ [ODate t]" by auto
  have "closed_above n (h @ [ODate t])" using 5(1) by (rule closed_above_snoc) simp
  with r 5(2) show ?case by simp
next
  case (6 ts h)
  obtain vs h0 where e: "alloc_elems ts h = (vs, h0)" by (cases "alloc_elems ts h")
  from 6(1)[OF 6(2,3) e] have 0: "closed_above n h0" "length h \<le> length h0"
    "\<And>b. VRef b \<in> set vs \<Longrightarrow> n \<le> b \<and> b < length h0" by auto
  from 6(4) e have r: "v = VRef (length h0)" "h1 = h0 @ [OArray vs]" by auto
  have "closed_above n (h0 @ [OArray vs])" using 0(1) by (rule closed_above_snoc) (simp add: 0(3))
  with r 0(2) 6(3) show ?case by simp
next
  case (7 ps h)
  obtain qs h0 where e: "alloc_props ps h = (qs, h0)" by (cases "alloc_props ps h")
  from 7(1)[OF 7(2,3) e] have 0: "closed_above n h0" "length h \<le> length h0"
    "\<And>b. VRef b \<in> set (map snd qs) \<Longrightarrow> n \<le> b \<and> b < length h0" by auto
  from 7(4) e have r: "v = VRef (length h0)" "h1 = h0 @ [OObject qs]" by auto
  have "closed_above n (h0 @ [OObject qs])" using 0(1) by (rule closed_above_snoc) (simp add: 0(3))
  with r 0(2) 7(3) show ?case by simp
next
  case (9 k t ps h)
  obtain v h0 where a: "alloc t h = (v, h0)" by (cases "alloc t h")
  obtain qs' h2 where b: "alloc_props ps h0 = (qs', h2)" by (cases "alloc_props ps h0")
  from 9(1)[OF 9(3,4) a] have 1: "closed_above n h0" "length h \<le> length h0"
    "\<And>b. v = VRef b \<Longrightarrow> n \<le> b \<and> b < length h0" by auto
  have "n \<le> length h0" using 1(2) 9(4) by simp
  from 9(2)[OF a[symmetric] 1(1) this b] have 2: "closed_above n h2" "length h0 \<le> length h2"
    "\<And>b. VRef b \<in> set (map snd qs') \<Longrightarrow> n \<le> b \<and> b < length h2" by auto
  from 9(5) a b have r: "qs = (k, v) # qs'" "h1 = h2" by auto
  have "n \<le> c \<and> c < length h2" if "VRef c \<in> set (map snd qs)" for c
  proof (cases "v = VRef c")
    case True
    from 1(3)[OF this] 2(2) show ?thesis by simp
  next
    case False
    with that r have "VRef c \<in> set (map snd qs')" by auto
    from 2(3)[OF this] show ?thesis .
  qed
  with r 1(2) 2(1,2) show ?case by simp
next
  case (11 t ts h)
  obtain v h0 where a: "alloc t h = (v, h0)" by (cases "alloc t h")
  obtain vs' h2 where b: "alloc_elems ts h0 = (vs', h2)" by (cases "alloc_elems ts h0")
  from 11(1)[OF 11(3,4) a] have 1: "closed_above n h0" "length h \<le> length h0"
    "\<And>b. v = VRef b \<Longrightarrow> n \<le> b \<and> b < length h0" by auto
  have "n \<le> length h0" using 1(2) 11(4) by simp
  from 11(2)[OF a[symmetric] 1(1) this b] have 2: "closed_above n h2" "length h0 \<le> length h2"
    "\<And>b. VRef b \<in> set vs' \<Longrightarrow> n \<le> b \<and> b < length h2" by auto
  from 11(5) a b have r: "vs = v # vs'" "h1 = h2" by auto
  have "n \<le> c \<and> c < length h2" if "VRef c \<in> set vs" for c
  proof (cases "v = VRef c")
    case True
    from 1(3)[OF this] 2(2) show ?thesis by simp
  next
    case False
    with that r have "VRef c \<in> set vs'" by auto
    from 2(3)[OF this] show ?thesis .
  qed
  with r 1(2) 2(1,2) show ?case by simp
qed auto

subsection \<open>The deep copy protects the current query\<close>

lemma caller_heap_reads:
  "tree_of (Suc (length (snd caller_heap))) (snd caller_heap) (fst caller_heap)
     = Some example_pipeline_normalized"
  by code_simp

lemma normalized_round_trip:
  "convertDateStrings no_fallback (deep_copy example_pipeline_normalized)
     = Inr example_pipeline_normalized"
  by code_simp

lemma closed_above_top: "closed_above (length h) h"
  by (rule closed_aboveI) simp

text \<open>
  C8. Lines 80 to 82 on a heap, for every current query and every heap: the expression
  returns; no cell that existed before is changed, and the cells it creates hold
  addresses of created cells only, as does the processed query, so nothing the store is
  handed leads back to the caller's objects; the current query still reads as the same
  tree; and the processed query reads as the result of the normalizer of
  mongoService.js on the deep copy of that tree (or the normalizer's error is raised),
  which is the processed query of \<open>try_attempt\<close>.
\<close>

theorem deep_copy_protects_current_query:
  "\<exists>res h'. processedQuery_heap legacy cur h = Some (res, h')
      \<and> take (length h) h' = h
      \<and> closed_above (length h) h'
      \<and> (\<forall>a. res = Inr (VRef a) \<longrightarrow> length h \<le> a)
      \<and> (\<forall>t. tree_of (Suc (length h)) h cur = Some t \<longrightarrow>
            tree_of (Suc (length h')) h' cur = Some t
            \<and> (case convertDateStrings legacy (deep_copy t) of
                 Inl e \<Rightarrow> res = Inl e
               | Inr processedQuery \<Rightarrow>
                   (\<exists>copy. res = Inr copy
                      \<and> tree_of (Suc (length h')) h' copy = Some processedQuery)))"
proof (cases "tree_of (Suc (length h)) h cur")
  case None
  then show ?thesis by (simp add: processedQuery_heap_circular closed_above_top)
next
  case (Some t)
  obtain copy h1 where al: "alloc (deep_copy t) h = (copy, h1)"
    by (cases "alloc (deep_copy t) h")
  from alloc_laid(1)[OF al] obtain ext where ext: "h1 = h @ ext"
    and l: "laid h1 (length h) (length h1) copy (deep_copy t)" by auto
  from alloc_closed(1)[OF closed_above_top le_refl al]
  have c1: "closed_above (length h) h1" and new: "\<And>b. copy = VRef b \<Longrightarrow> length h \<le> b"
    by auto
  have "length h1 - length h < Suc (length h1)" by simp
  from convertDateStrings_heap_refines[OF l le_refl this, of MongoService legacy]
  obtain res h2 where
    run: "convertDateStrings_heap (Suc (length h1)) MongoService legacy copy h1 = Some (res, h2)"
    and ch: "changes_within h1 h2 (length h) (length h1)"
    and res: "res = (if trips (deep_copy t) then Some shadow_error else None)"
    and fin: "res = None \<longrightarrow> laid h2 (length h) (length h1) copy (rewrite legacy (deep_copy t))"
    by auto
  from traversal_grows(1)[OF c1 new run] have c2: "closed_above (length h) h2"
    by (simp add: grows_def)
  have len: "length h \<le> length h1" "length h1 \<le> length h2"
    using ext ch by (simp_all add: changes_within_def)
  have pre: "take (length h) h2 = h"
    using changes_within_prefix[OF ch le_refl len(1)] ext by simp
  then have h2: "h2 = h @ drop (length h) h2"
    by (metis append_take_drop_id)
  have cur: "tree_of (Suc (length h2)) h2 cur = Some t"
    using tree_of_stable(1)[OF Some, of "Suc (length h2)" "drop (length h) h2"] h2 len by simp
  show ?thesis
  proof (cases res)
    case None
    with res have nt: "\<not> trips (deep_copy t)" by (auto split: if_splits)
    from fin None have "laid h2 (length h) (length h1) copy (rewrite legacy (deep_copy t))"
      by simp
    then have "tree_of (Suc (length h2)) h2 copy = Some (rewrite legacy (deep_copy t))"
      by (rule tree_of_laid) (use len in simp)
    with None run al Some pre cur nt c2 new show ?thesis
      by (simp add: processedQuery_heap_def convertDateStrings_eq)
  next
    case (Some e)
    with res have "trips (deep_copy t)" "e = shadow_error" by (auto split: if_splits)
    with Some run al \<open>tree_of (Suc (length h)) h cur = Some t\<close> pre cur c2 show ?thesis
      by (simp add: processedQuery_heap_def convertDateStrings_eq)
  qed
qed

text \<open>The theorem at the example pipeline, normalized, in a heap of six cells.\<close>

theorem deep_copy_protects_current_query_witness:
  "tree_of (Suc (length (snd caller_heap))) (snd caller_heap) (fst caller_heap)
     = Some example_pipeline_normalized
   \<and> (\<exists>res h'. processedQuery_heap no_fallback (fst caller_heap) (snd caller_heap) = Some (res, h')
         \<and> take (length (snd caller_heap)) h' = snd caller_heap
         \<and> closed_above (length (snd caller_heap)) h'
         \<and> tree_of (Suc (length h')) h' (fst caller_heap) = Some example_pipeline_normalized
         \<and> (\<exists>copy. res = Inr copy
               \<and> tree_of (Suc (length h')) h' copy = Some example_pipeline_normalized))"
  using deep_copy_protects_current_query[of no_fallback "fst caller_heap" "snd caller_heap"]
    caller_heap_reads normalized_round_trip
  by auto

end
